theory Spec2Isabelle
  imports Main "HOL-Library.Tree" "HOL-Library.AList"
begin

section \<open>Data model (types.ts)\<close>

text \<open>
  A \<^verbatim>\<open>TreeNode | null\<close> is a binary tree of numbers: \<open>Leaf\<close> is \<^verbatim>\<open>null\<close> and
  \<open>\<langle>l, v, r\<rangle>\<close> is the object \<^verbatim>\<open>{ value: v, left: l, right: r }\<close>. Node values are
  modelled as unbounded integers (the claims speak of integer values; the user interface
  only hands small non-negative integers to the core).
\<close>

type_synonym TreeNode = "int tree"

datatype HighlightType = Visiting | Found | Inserting | Removing | Path

text \<open>
  An animation step. The JavaScript \<^verbatim>\<open>Map<number, HighlightType>\<close> keeps its keys in
  insertion order and \<^verbatim>\<open>set\<close> overwrites the value of an existing key in place: this is
  an association list under \<open>AList.update\<close>. The snapshot type is a parameter: the
  functional model stores trees, the store model stores addresses.
\<close>

record 't AnimationStep =
  highlightNodes :: "(int \<times> HighlightType) list"
  highlightEdges :: "(int \<times> int) list"
  tree :: 't
  description :: string
  codeLine :: "int option"
  activeNode :: "int option"

datatype OperationType =
  Create | Search | Insert | Remove | Predecessor | Successor | SelectKth
  | Inorder | Preorder | Postorder

subsection \<open>Numbers in template literals\<close>

text \<open>
  \<^verbatim>\<open>`${n}`\<close> prints an integer in decimal, with a leading minus sign when negative.
\<close>

definition digit :: "nat \<Rightarrow> char" where
  "digit n = ''0123456789'' ! n"

fun digits :: "nat \<Rightarrow> string" where
  "digits n = (if n < 10 then [digit n] else digits (n div 10) @ [digit (n mod 10)])"

declare digits.simps [simp del]

definition show_int :: "int \<Rightarrow> string" where
  "show_int i = (if i < 0 then CHR ''-'' # digits (nat (- i)) else digits (nat i))"

section \<open>Helpers (bst.ts)\<close>

fun cloneTree :: "TreeNode \<Rightarrow> TreeNode" where
  "cloneTree Leaf = Leaf"
| "cloneTree \<langle>l, v, r\<rangle> = \<langle>cloneTree l, v, cloneTree r\<rangle>"

fun countNodes :: "TreeNode \<Rightarrow> int" where
  "countNodes Leaf = 0"
| "countNodes \<langle>l, v, r\<rangle> = 1 + countNodes l + countNodes r"

fun treeHeight :: "TreeNode \<Rightarrow> int" where
  "treeHeight Leaf = 0"
| "treeHeight \<langle>l, v, r\<rangle> = 1 + max (treeHeight l) (treeHeight r)"

text \<open>
  \<^verbatim>\<open>findMin\<close> and \<^verbatim>\<open>findMax\<close> take a non-null node (their parameter type is
  \<^verbatim>\<open>TreeNode\<close>, not \<^verbatim>\<open>TreeNode | null\<close>), so there is no equation for \<open>Leaf\<close>.
\<close>

fun findMin :: "TreeNode \<Rightarrow> TreeNode" where
  "findMin \<langle>l, v, r\<rangle> = (if l = Leaf then \<langle>l, v, r\<rangle> else findMin l)"

fun findMax :: "TreeNode \<Rightarrow> TreeNode" where
  "findMax \<langle>l, v, r\<rangle> = (if r = Leaf then \<langle>l, v, r\<rangle> else findMax r)"

subsection \<open>Step builders\<close>

text \<open>\<^verbatim>\<open>new Map(entries)\<close>: the entries are set one after the other.\<close>

definition Map_new :: "(int \<times> HighlightType) list \<Rightarrow> (int \<times> HighlightType) list" where
  "Map_new entries = fold (\<lambda>(k, h) m. AList.update k h m) entries []"

definition makeStep ::
  "TreeNode \<Rightarrow> string \<Rightarrow> (int \<times> HighlightType) list \<Rightarrow> (int \<times> int) list \<Rightarrow> int option
    \<Rightarrow> int option \<Rightarrow> TreeNode AnimationStep" where
  "makeStep t d highlights es cl an =
     \<lparr>highlightNodes = Map_new highlights, highlightEdges = es, tree = cloneTree t,
      description = d, codeLine = cl, activeNode = an\<rparr>"

definition makeTraversalStep ::
  "TreeNode \<Rightarrow> string \<Rightarrow> int \<Rightarrow> HighlightType \<Rightarrow> (int \<times> HighlightType) list
    \<Rightarrow> (int \<times> int) list \<Rightarrow> int \<Rightarrow> TreeNode AnimationStep" where
  "makeTraversalStep t d currentNode currentType visitedNodes visitedEdges cl =
     \<lparr>highlightNodes = AList.update currentNode currentType visitedNodes,
      highlightEdges = visitedEdges, tree = cloneTree t,
      description = d, codeLine = Some cl, activeNode = Some currentNode\<rparr>"

text \<open>
  The local variables every operation closes over: the step list and the highlight map
  and edge list (\<^verbatim>\<open>pathNodes\<close>/\<^verbatim>\<open>pathEdges\<close> in the point operations,
  \<^verbatim>\<open>visitedNodes\<close>/\<^verbatim>\<open>visitedEdges\<close> in the walks). Each helper below is one
  statement of the source: \<^verbatim>\<open>steps.push(s)\<close>, \<^verbatim>\<open>nodes.set(k, h)\<close>,
  \<^verbatim>\<open>edges.push([a, b])\<close>.
\<close>

record 't Recorder =
  steps :: "'t AnimationStep list"
  nodes :: "(int \<times> HighlightType) list"
  edges :: "(int \<times> int) list"

definition push :: "'t AnimationStep \<Rightarrow> ('t, 'z) Recorder_scheme \<Rightarrow> ('t, 'z) Recorder_scheme" where
  "push s st = st\<lparr>steps := steps st @ [s]\<rparr>"

definition setNode :: "int \<Rightarrow> HighlightType \<Rightarrow> ('t, 'z) Recorder_scheme \<Rightarrow> ('t, 'z) Recorder_scheme" where
  "setNode k h st = st\<lparr>nodes := AList.update k h (nodes st)\<rparr>"

definition pushEdge :: "int \<times> int \<Rightarrow> ('t, 'z) Recorder_scheme \<Rightarrow> ('t, 'z) Recorder_scheme" where
  "pushEdge e st = st\<lparr>edges := edges st @ [e]\<rparr>"

definition pushParentEdge :: "int option \<Rightarrow> int \<Rightarrow> ('t, 'z) Recorder_scheme \<Rightarrow> ('t, 'z) Recorder_scheme" where
  "pushParentEdge parent nv st = (case parent of None \<Rightarrow> st | Some p \<Rightarrow> pushEdge (p, nv) st)"

definition pushChildEdge :: "int \<Rightarrow> TreeNode \<Rightarrow> ('t, 'z) Recorder_scheme \<Rightarrow> ('t, 'z) Recorder_scheme" where
  "pushChildEdge nv child st = (case child of Leaf \<Rightarrow> st | \<langle>cl, cv, cr\<rangle> \<Rightarrow> pushEdge (nv, cv) st)"

definition emptyRecorder :: "'t Recorder" where
  "emptyRecorder = \<lparr>steps = [], nodes = [], edges = []\<rparr>"

section \<open>Search\<close>

fun search_loop ::
  "TreeNode \<Rightarrow> int \<Rightarrow> TreeNode \<Rightarrow> int option \<Rightarrow> TreeNode Recorder \<Rightarrow> bool \<times> TreeNode Recorder" where
  "search_loop root v Leaf parent st = (False, st)"
| "search_loop root v \<langle>l, nv, r\<rangle> parent st =
    (let st = pushParentEdge parent nv st;
         st = setNode nv Visiting st;
         st = push (makeTraversalStep root (''Visit node '' @ show_int nv) nv Visiting (nodes st) (edges st) 0) st
     in if v = nv then
          (let st = setNode nv Found st;
               st = push (makeTraversalStep root (show_int nv @ '' == '' @ show_int v @ ''. Found!'') nv Found (nodes st) (edges st) 2) st;
               st = push (makeTraversalStep root (''Value '' @ show_int v @ '' is found.'') nv Found (nodes st) (edges st) 3) st
           in (True, st))
        else
          (let st = (if v < nv
                     then push (makeTraversalStep root (show_int v @ '' < '' @ show_int nv @ '', go left'') nv Visiting (nodes st) (edges st) 6) st
                     else push (makeTraversalStep root (show_int v @ '' > '' @ show_int nv @ '', go right'') nv Visiting (nodes st) (edges st) 5) st)
           in if v < nv then search_loop root v l (Some nv) st
              else search_loop root v r (Some nv) st))"

text \<open>The result \<^verbatim>\<open>{ found, steps }\<close> is the pair \<open>(found, steps)\<close>.\<close>

definition searchNode :: "TreeNode \<Rightarrow> int \<Rightarrow> bool \<times> TreeNode AnimationStep list" where
  "searchNode root v =
     (case search_loop root v root None emptyRecorder of
        (True, st) \<Rightarrow> (True, steps st)
      | (False, st) \<Rightarrow>
          (let st = push (makeStep root ''Reached null'' (nodes st) (edges st) (Some 0) None) st;
               st = push (makeStep root (show_int v @ '' not found in tree'') (nodes st) (edges st) (Some 1) None) st
           in (False, steps st)))"

section \<open>Insert\<close>

text \<open>
  The inner \<^verbatim>\<open>insert\<close> works on the clone that \<^verbatim>\<open>insertNode\<close> made. It assigns
  \<^verbatim>\<open>node.left\<close> (or \<^verbatim>\<open>node.right\<close>) only after the recursive call has returned, and
  pushes no step after that, so every snapshot it takes of \<^verbatim>\<open>root\<close> shows the clone as
  it was on entry: the parameter \<open>root\<close>. The node it returns is the updated subtree.
\<close>

fun insert ::
  "TreeNode \<Rightarrow> int \<Rightarrow> TreeNode \<Rightarrow> int option \<Rightarrow> TreeNode Recorder \<Rightarrow> TreeNode \<times> TreeNode Recorder" where
  "insert root v Leaf parent st = (\<langle>Leaf, v, Leaf\<rangle>, st)"
| "insert root v \<langle>l, nv, r\<rangle> parent st =
    (let st = pushParentEdge parent nv st;
         st = setNode nv Visiting st;
         st = push (makeTraversalStep root (''Compare '' @ show_int v @ '' with '' @ show_int nv) nv Visiting (nodes st) (edges st) 0) st
     in if v < nv then
          (let st = push (makeTraversalStep root (show_int v @ '' < '' @ show_int nv @ '', go left'') nv Visiting (nodes st) (edges st) 2) st;
               (l', st) = insert root v l (Some nv) st
           in (\<langle>l', nv, r\<rangle>, st))
        else if v > nv then
          (let st = push (makeTraversalStep root (show_int v @ '' > '' @ show_int nv @ '', go right'') nv Visiting (nodes st) (edges st) 4) st;
               (r', st) = insert root v r (Some nv) st
           in (\<langle>l, nv, r'\<rangle>, st))
        else (\<langle>l, nv, r\<rangle>, st))"

text \<open>The result \<^verbatim>\<open>{ root, steps }\<close> is the pair \<open>(root, steps)\<close>.\<close>

definition insertNode :: "TreeNode \<Rightarrow> int \<Rightarrow> TreeNode \<times> TreeNode AnimationStep list" where
  "insertNode root v =
     (if root = Leaf then
        (let newRoot = \<langle>Leaf, v, Leaf\<rangle>
         in (newRoot, [makeStep newRoot (''Insert '' @ show_int v @ '' as root'') [(v, Inserting)] [] (Some 1) None]))
      else
        (let root = cloneTree root;
             (root, st) = insert root v root None emptyRecorder;
             st = setNode v Inserting st;
             st = push (makeStep root (''Inserted '' @ show_int v) (nodes st) (edges st) (Some 1) None) st
         in (root, steps st)))"

section \<open>Remove\<close>

text \<open>
  The inner \<^verbatim>\<open>remove(node, parent)\<close> works on the clone too, and compares every node
  with the \<^verbatim>\<open>value\<close> that \<^verbatim>\<open>removeNode\<close> was called with: its second parameter is
  the parent's value, used for the edge list only. In the two-children case it overwrites
  \<^verbatim>\<open>node.value\<close> before it recurses, so the snapshots taken below that point show the
  changed clone. The model carries the tree around the current node as a function
  \<open>ctx\<close>: \<open>ctx t\<close> is the whole clone with \<open>t\<close> at the current position.
\<close>

fun remove ::
  "(TreeNode \<Rightarrow> TreeNode) \<Rightarrow> int \<Rightarrow> TreeNode \<Rightarrow> int option \<Rightarrow> TreeNode Recorder
    \<Rightarrow> TreeNode \<times> TreeNode Recorder" where
  "remove ctx v Leaf parent st =
     (Leaf, push (makeStep (ctx Leaf) (show_int v @ '' not found'') (nodes st) (edges st) (Some 1) None) st)"
| "remove ctx v \<langle>l, nv, r\<rangle> parent st =
    (let root = ctx \<langle>l, nv, r\<rangle>;
         st = pushParentEdge parent nv st;
         st = setNode nv Visiting st;
         st = push (makeTraversalStep root (''Visit '' @ show_int nv) nv Visiting (nodes st) (edges st) 0) st
     in if v < nv then
          (let st = push (makeTraversalStep root (show_int v @ '' < '' @ show_int nv @ '', go left'') nv Visiting (nodes st) (edges st) 2) st;
               (l', st) = remove (\<lambda>t. ctx \<langle>t, nv, r\<rangle>) v l (Some nv) st
           in (\<langle>l', nv, r\<rangle>, st))
        else if v > nv then
          (let st = push (makeTraversalStep root (show_int v @ '' > '' @ show_int nv @ '', go right'') nv Visiting (nodes st) (edges st) 4) st;
               (r', st) = remove (\<lambda>t. ctx \<langle>l, nv, t\<rangle>) v r (Some nv) st
           in (\<langle>l, nv, r'\<rangle>, st))
        else
          (let st = setNode nv Removing st;
               st = push (makeTraversalStep root (''Found '' @ show_int nv @ '', removing'') nv Removing (nodes st) (edges st) 6) st
           in if l = Leaf \<and> r = Leaf then
                (Leaf, push (makeTraversalStep root (show_int nv @ '' is a leaf, remove it'') nv Removing (nodes st) (edges st) 7) st)
              else if l = Leaf then
                (r, push (makeTraversalStep root (show_int nv @ '' has one child, replace'') nv Removing (nodes st) (edges st) 8) st)
              else if r = Leaf then
                (l, push (makeTraversalStep root (show_int nv @ '' has one child, replace'') nv Removing (nodes st) (edges st) 8) st)
              else
                (let sv = tree.value (findMin r);
                     st = setNode sv Found st;
                     st = push (makeStep root (''Two children, find successor: '' @ show_int sv) (nodes st) (edges st) (Some 9) None) st;
                     st = push (makeStep root (''Replace '' @ show_int nv @ '' with '' @ show_int sv) (nodes st) (edges st) (Some 10) None) st;
                     (r', st) = remove (\<lambda>t. ctx \<langle>l, sv, t\<rangle>) v r (Some sv) st
                 in (\<langle>l, sv, r'\<rangle>, st))))"

definition removeNode :: "TreeNode \<Rightarrow> int \<Rightarrow> TreeNode \<times> TreeNode AnimationStep list" where
  "removeNode root v =
     (let root = cloneTree root;
          (root, st) = remove (\<lambda>t. t) v root None emptyRecorder;
          st = push (makeStep root ''Removal complete'' (nodes st) (edges st) None None) st
      in (root, steps st))"

section \<open>Select k-th smallest\<close>

text \<open>
  \<^verbatim>\<open>selectKth\<close> also closes over the counter \<^verbatim>\<open>count\<close> and the \<^verbatim>\<open>result\<close>
  (\<open>None\<close> is \<^verbatim>\<open>null\<close>). \<^verbatim>\<open>walk\<close> tests \<^verbatim>\<open>result !== null\<close> on entry only.
\<close>

record 't SelectState = "'t Recorder" +
  count :: int
  result :: "int option"

fun select_walk :: "TreeNode \<Rightarrow> int \<Rightarrow> TreeNode \<Rightarrow> TreeNode SelectState \<Rightarrow> TreeNode SelectState" where
  "select_walk root k Leaf st = st"
| "select_walk root k \<langle>l, nv, r\<rangle> st =
    (if result st \<noteq> None then st
     else
       (let st = pushChildEdge nv l st;
            st = select_walk root k l st;
            st = st\<lparr>count := count st + 1\<rparr>;
            st = setNode nv Visiting st;
            st = push (makeTraversalStep root (''Visit '' @ show_int nv @ '' (count='' @ show_int (count st) @ '')'') nv Visiting (nodes st) (edges st) 2) st
        in if count st = k then
             (let st = st\<lparr>result := Some nv\<rparr>;
                  st = setNode nv Found st
              in push (makeTraversalStep root (show_int k @ ''-th smallest is '' @ show_int nv) nv Found (nodes st) (edges st) 4) st)
           else
             (let st = pushChildEdge nv r st
              in select_walk root k r st)))"

text \<open>The result \<^verbatim>\<open>{ result, steps }\<close> is the pair \<open>(result, steps)\<close>.\<close>

definition selectKth :: "TreeNode \<Rightarrow> int \<Rightarrow> int option \<times> TreeNode AnimationStep list" where
  "selectKth root k =
     (let st = \<lparr>steps = [], nodes = [], edges = [], count = 0, result = None\<rparr>;
          st = push (makeStep root (''Select '' @ show_int k @ ''-th smallest'') [] [] (Some 0) None) st;
          st = select_walk root k root st;
          st = (case result st of
                  None \<Rightarrow> push (makeStep root (''k='' @ show_int k @ '' is out of range'') (nodes st) (edges st) (Some 6) None) st
                | Some res \<Rightarrow> push (makeStep root (''Result: '' @ show_int res) (nodes st) (edges st) (Some 6) None) st)
      in (result st, steps st))"

section \<open>Traversals\<close>

text \<open>
  \<^verbatim>\<open>buildParentMap\<close> fills a map from each child value to its parent's value. The three
  traversals build it and never read it.
\<close>

fun buildParentMap :: "TreeNode \<Rightarrow> int option \<Rightarrow> (int \<times> int) list \<Rightarrow> (int \<times> int) list" where
  "buildParentMap Leaf parent out = out"
| "buildParentMap \<langle>l, nv, r\<rangle> parent out =
    (let out = (case parent of None \<Rightarrow> out | Some p \<Rightarrow> AList.update nv p out);
         out = buildParentMap l (Some nv) out
     in buildParentMap r (Some nv) out)"

fun inorder_walk :: "TreeNode \<Rightarrow> TreeNode \<Rightarrow> TreeNode Recorder \<Rightarrow> TreeNode Recorder" where
  "inorder_walk root Leaf st = st"
| "inorder_walk root \<langle>l, nv, r\<rangle> st =
    (let st = push (makeTraversalStep root (''Go left from '' @ show_int nv) nv Visiting (nodes st) (edges st) 2) st;
         st = pushChildEdge nv l st;
         st = inorder_walk root l st;
         st = setNode nv Found st;
         st = push (makeTraversalStep root (''Visit '' @ show_int nv @ '' (in-order)'') nv Found (nodes st) (edges st) 3) st;
         st = push (makeTraversalStep root (''Go right from '' @ show_int nv) nv Visiting (nodes st) (edges st) 4) st;
         st = pushChildEdge nv r st
     in inorder_walk root r st)"

definition inorderTraversal :: "TreeNode \<Rightarrow> TreeNode AnimationStep list" where
  "inorderTraversal root =
     (let parentMap = buildParentMap root None [];
          st = inorder_walk root root emptyRecorder;
          st = push (makeStep root ''In-order traversal complete'' (nodes st) (edges st) None None) st
      in steps st)"

fun preorder_walk :: "TreeNode \<Rightarrow> TreeNode \<Rightarrow> TreeNode Recorder \<Rightarrow> TreeNode Recorder" where
  "preorder_walk root Leaf st = st"
| "preorder_walk root \<langle>l, nv, r\<rangle> st =
    (let st = setNode nv Found st;
         st = push (makeTraversalStep root (''Visit '' @ show_int nv @ '' (pre-order)'') nv Found (nodes st) (edges st) 2) st;
         st = push (makeTraversalStep root (''Go left from '' @ show_int nv) nv Visiting (nodes st) (edges st) 3) st;
         st = pushChildEdge nv l st;
         st = preorder_walk root l st;
         st = push (makeTraversalStep root (''Go right from '' @ show_int nv) nv Visiting (nodes st) (edges st) 4) st;
         st = pushChildEdge nv r st
     in preorder_walk root r st)"

definition preorderTraversal :: "TreeNode \<Rightarrow> TreeNode AnimationStep list" where
  "preorderTraversal root =
     (let parentMap = buildParentMap root None [];
          st = preorder_walk root root emptyRecorder;
          st = push (makeStep root ''Pre-order traversal complete'' (nodes st) (edges st) None None) st
      in steps st)"

fun postorder_walk :: "TreeNode \<Rightarrow> TreeNode \<Rightarrow> TreeNode Recorder \<Rightarrow> TreeNode Recorder" where
  "postorder_walk root Leaf st = st"
| "postorder_walk root \<langle>l, nv, r\<rangle> st =
    (let st = push (makeTraversalStep root (''Go left from '' @ show_int nv) nv Visiting (nodes st) (edges st) 2) st;
         st = pushChildEdge nv l st;
         st = postorder_walk root l st;
         st = push (makeTraversalStep root (''Go right from '' @ show_int nv) nv Visiting (nodes st) (edges st) 3) st;
         st = pushChildEdge nv r st;
         st = postorder_walk root r st;
         st = setNode nv Found st
     in push (makeTraversalStep root (''Visit '' @ show_int nv @ '' (post-order)'') nv Found (nodes st) (edges st) 4) st)"

definition postorderTraversal :: "TreeNode \<Rightarrow> TreeNode AnimationStep list" where
  "postorderTraversal root =
     (let parentMap = buildParentMap root None [];
          st = postorder_walk root root emptyRecorder;
          st = push (makeStep root ''Post-order traversal complete'' (nodes st) (edges st) None None) st
      in steps st)"

section \<open>Predecessor and successor\<close>

text \<open>
  The loops carry the best candidate so far, \<open>None\<close> for \<^verbatim>\<open>null\<close>. Only the candidate's
  value is read afterwards, so the model keeps the value.
\<close>

fun predecessor_loop ::
  "TreeNode \<Rightarrow> int \<Rightarrow> TreeNode \<Rightarrow> int option \<Rightarrow> int option \<Rightarrow> TreeNode Recorder
    \<Rightarrow> int option \<times> TreeNode Recorder" where
  "predecessor_loop root v Leaf parent predecessor st = (predecessor, st)"
| "predecessor_loop root v \<langle>l, nv, r\<rangle> parent predecessor st =
    (let st = pushParentEdge parent nv st;
         st = setNode nv Visiting st;
         st = push (makeTraversalStep root (''Visit '' @ show_int nv) nv Visiting (nodes st) (edges st) 1) st
     in if v \<le> nv then
          (let st = push (makeTraversalStep root (show_int v @ '' <= '' @ show_int nv @ '', go left'') nv Visiting (nodes st) (edges st) 3) st
           in predecessor_loop root v l (Some nv) predecessor st)
        else
          (let st = setNode nv Found st;
               st = push (makeTraversalStep root (show_int v @ '' > '' @ show_int nv @ '', candidate'') nv Found (nodes st) (edges st) 5) st
           in predecessor_loop root v r (Some nv) (Some nv) st))"

definition findPredecessor :: "TreeNode \<Rightarrow> int \<Rightarrow> int option \<times> TreeNode AnimationStep list" where
  "findPredecessor root v =
     (let st = push (makeStep root (''Finding predecessor of '' @ show_int v) [] [] (Some 0) None) emptyRecorder;
          (predecessor, st) = predecessor_loop root v root None None st;
          st = (case predecessor of
                  Some pv \<Rightarrow> push (makeStep root (''Predecessor of '' @ show_int v @ '' is '' @ show_int pv) (nodes st) (edges st) (Some 7) None) st
                | None \<Rightarrow> push (makeStep root (''No predecessor for '' @ show_int v) (nodes st) (edges st) (Some 7) None) st)
      in (predecessor, steps st))"

fun successor_loop ::
  "TreeNode \<Rightarrow> int \<Rightarrow> TreeNode \<Rightarrow> int option \<Rightarrow> int option \<Rightarrow> TreeNode Recorder
    \<Rightarrow> int option \<times> TreeNode Recorder" where
  "successor_loop root v Leaf parent successor st = (successor, st)"
| "successor_loop root v \<langle>l, nv, r\<rangle> parent successor st =
    (let st = pushParentEdge parent nv st;
         st = setNode nv Visiting st;
         st = push (makeTraversalStep root (''Visit '' @ show_int nv) nv Visiting (nodes st) (edges st) 1) st
     in if v \<ge> nv then
          (let st = push (makeTraversalStep root (show_int v @ '' >= '' @ show_int nv @ '', go right'') nv Visiting (nodes st) (edges st) 3) st
           in successor_loop root v r (Some nv) successor st)
        else
          (let st = setNode nv Found st;
               st = push (makeTraversalStep root (show_int v @ '' < '' @ show_int nv @ '', candidate'') nv Found (nodes st) (edges st) 5) st
           in successor_loop root v l (Some nv) (Some nv) st))"

definition findSuccessor :: "TreeNode \<Rightarrow> int \<Rightarrow> int option \<times> TreeNode AnimationStep list" where
  "findSuccessor root v =
     (let st = push (makeStep root (''Finding successor of '' @ show_int v) [] [] (Some 0) None) emptyRecorder;
          (successor, st) = successor_loop root v root None None st;
          st = (case successor of
                  Some sv \<Rightarrow> push (makeStep root (''Successor of '' @ show_int v @ '' is '' @ show_int sv) (nodes st) (edges st) (Some 7) None) st
                | None \<Rightarrow> push (makeStep root (''No successor for '' @ show_int v) (nodes st) (edges st) (Some 7) None) st)
      in (successor, steps st))"

section \<open>Create random tree\<close>

text \<open>
  The random numbers are an input of the model: \<open>draws\<close> is the sequence of values
  \<^verbatim>\<open>Math.floor(Math.random() * 99) + 1\<close> takes, in order. The \<^verbatim>\<open>while\<close> loop adds draws
  to a set (which keeps insertion order and ignores a value it already has) until the
  set has \<open>n\<close> members; \<open>None\<close> says that the draws given ran out before that.
\<close>

fun drawValues :: "int \<Rightarrow> int list \<Rightarrow> int list \<Rightarrow> int list option" where
  "drawValues n vals [] = (if int (length vals) < n then None else Some vals)"
| "drawValues n vals (d # ds) =
    (if int (length vals) < n
     then drawValues n (if d \<in> set vals then vals else vals @ [d]) ds
     else Some vals)"

fun insertAll ::
  "TreeNode \<Rightarrow> int list \<Rightarrow> TreeNode AnimationStep list \<Rightarrow> TreeNode \<times> TreeNode AnimationStep list" where
  "insertAll root [] allSteps = (root, allSteps)"
| "insertAll root (v # vs) allSteps =
    (let (newRoot, ss) = insertNode root v
     in insertAll newRoot vs (allSteps @ ss))"

definition createRandomTree ::
  "int \<Rightarrow> int list \<Rightarrow> (TreeNode \<times> TreeNode AnimationStep list) option" where
  "createRandomTree n draws =
     (case drawValues n [] draws of
        None \<Rightarrow> None
      | Some vals \<Rightarrow>
          (let (root, allSteps) = insertAll Leaf vals [];
               allSteps = allSteps @ [makeStep root (''Created BST with '' @ show_int n @ '' nodes'') [] [] None None]
           in Some (root, allSteps)))"

section \<open>Plain insert\<close>

text \<open>
  \<^verbatim>\<open>insertPlain\<close> is the insert without animation steps that builds the default tree.
\<close>

fun insertPlain :: "TreeNode \<Rightarrow> int \<Rightarrow> TreeNode" where
  "insertPlain Leaf v = \<langle>Leaf, v, Leaf\<rangle>"
| "insertPlain \<langle>l, nv, r\<rangle> v =
     (if v < nv then \<langle>insertPlain l v, nv, r\<rangle>
      else if v > nv then \<langle>l, nv, insertPlain r v\<rangle>
      else \<langle>l, nv, r\<rangle>)"

text \<open>
  \<^verbatim>\<open>createDefaultTree\<close> runs \<^verbatim>\<open>root = insertPlain(root, v)\<close> over its fixed insert order,
  starting from \<^verbatim>\<open>null\<close>.
\<close>

definition createDefaultTree :: TreeNode where
  "createDefaultTree =
     fold (\<lambda>v root. insertPlain root v)
       [50, 30, 70, 15, 40, 60, 85,
        8, 22, 35, 45, 55, 65, 80, 95,
        4, 11, 20, 25,
        2, 1] Leaf"

section \<open>Pseudocode registry (pseudocode.ts)\<close>

record PseudocodeEntry =
  lines :: "string list"
  title :: string

text \<open>The string of each member of the union type \<^verbatim>\<open>OperationType\<close>.\<close>

fun op_name :: "OperationType \<Rightarrow> string" where
  "op_name Create = ''create''"
| "op_name Search = ''search''"
| "op_name Insert = ''insert''"
| "op_name Remove = ''remove''"
| "op_name Predecessor = ''predecessor''"
| "op_name Successor = ''successor''"
| "op_name SelectKth = ''selectKth''"
| "op_name Inorder = ''inorder''"
| "op_name Preorder = ''preorder''"
| "op_name Postorder = ''postorder''"

definition PSEUDOCODE :: "(string \<times> PseudocodeEntry) list" where
  "PSEUDOCODE =
    [(''search'', \<lparr>lines = [''if this == null'', ''  return null'', ''else if this.key == search value'',
        ''  return this'', ''else if this.key < search value'', ''  search right'', ''else search left''],
        title = ''Search''\<rparr>),
     (''insert'', \<lparr>lines = [''if this == null'', ''  create new node'', ''else if value < this.key'',
        ''  go left'', ''else if value > this.key'', ''  go right''],
        title = ''Insert''\<rparr>),
     (''remove'', \<lparr>lines = [''if this == null'', ''  return (not found)'', ''else if value < this.key'',
        ''  go left'', ''else if value > this.key'', ''  go right'', ''else // found the node'',
        ''  if leaf node: remove it'', ''  if one child: bypass'', ''  if two children:'',
        ''    replace with successor'', ''    remove successor from right''],
        title = ''Remove''\<rparr>),
     (''create'', \<lparr>lines = [''if this == null'', ''  create new node'', ''else if value < this.key'',
        ''  go left'', ''else if value > this.key'', ''  go right''],
        title = ''Create''\<rparr>),
     (''inorder'', \<lparr>lines = [''if node == null'', ''  return'', ''inorder(node.left)'', ''visit node'',
        ''inorder(node.right)''],
        title = ''In-Order Traversal''\<rparr>),
     (''preorder'', \<lparr>lines = [''if node == null'', ''  return'', ''visit node'', ''preorder(node.left)'',
        ''preorder(node.right)''],
        title = ''Pre-Order Traversal''\<rparr>),
     (''postorder'', \<lparr>lines = [''if node == null'', ''  return'', ''postorder(node.left)'',
        ''postorder(node.right)'', ''visit node''],
        title = ''Post-Order Traversal''\<rparr>),
     (''predecessor'', \<lparr>lines = [''predecessor = null'', ''while node != null'', ''  if value <= node.key'',
        ''    go left'', ''  else'', ''    predecessor = node'', ''    go right'', ''return predecessor''],
        title = ''Predecessor''\<rparr>),
     (''successor'', \<lparr>lines = [''successor = null'', ''while node != null'', ''  if value >= node.key'',
        ''    go right'', ''  else'', ''    successor = node'', ''    go left'', ''return successor''],
        title = ''Successor''\<rparr>),
     (''selectKth'', \<lparr>lines = [''count = 0, result = null'', ''inorder(node.left)'', ''count++'',
        ''if count == k'', ''  result = node.key'', ''inorder(node.right)'', ''return result''],
        title = ''Select k-th''\<rparr>)]"

definition getPseudocode :: "OperationType \<Rightarrow> PseudocodeEntry" where
  "getPseudocode op =
     (case map_of PSEUDOCODE (op_name op) of
        Some e \<Rightarrow> e
      | None \<Rightarrow> \<lparr>lines = [], title = op_name op\<rparr>)"

section \<open>Which operation emits which steps (App.tsx)\<close>

text \<open>
  \<^verbatim>\<open>handleOperation\<close> and \<^verbatim>\<open>handleModalSubmit\<close> run the operation that belongs to the
  kind the user chose and hand its steps to \<^verbatim>\<open>runAnimation\<close> together with that kind,
  which the algorithm panel looks up in the pseudocode registry. \<open>v\<close> is the number
  entered (the value, or \<open>k\<close>); \<open>n\<close> and \<open>draws\<close> are the random size and the random
  values of \<^verbatim>\<open>create\<close>.
\<close>

fun operationSteps ::
  "OperationType \<Rightarrow> TreeNode \<Rightarrow> int \<Rightarrow> int \<Rightarrow> int list \<Rightarrow> TreeNode AnimationStep list option" where
  "operationSteps Create t v n draws = map_option snd (createRandomTree n draws)"
| "operationSteps Inorder t v n draws = Some (inorderTraversal t)"
| "operationSteps Preorder t v n draws = Some (preorderTraversal t)"
| "operationSteps Postorder t v n draws = Some (postorderTraversal t)"
| "operationSteps Search t v n draws = Some (snd (searchNode t v))"
| "operationSteps Insert t v n draws = Some (snd (insertNode t v))"
| "operationSteps Remove t v n draws = Some (snd (removeNode t v))"
| "operationSteps Predecessor t v n draws = Some (snd (findPredecessor t v))"
| "operationSteps Successor t v n draws = Some (snd (findSuccessor t v))"
| "operationSteps SelectKth t v n draws = Some (snd (selectKth t v))"

section \<open>Playback controller (useCanvas.ts)\<close>

text \<open>
  \<^verbatim>\<open>createPlayback(steps, callbacks)\<close> returns closures over \<^verbatim>\<open>index\<close>,
  \<^verbatim>\<open>timerId\<close> and \<^verbatim>\<open>speed\<close>. The record holds these variables, the step list, and
  what the controller does to its environment: \<open>pending\<close> are the timeouts it has
  scheduled and not yet cleared, oldest first (the identifier, and the two operands of
  the delay \<^verbatim>\<open>baseDelay / speed\<close>; the callback of each is \<^verbatim>\<open>tick\<close>), \<open>nextId\<close> is
  the identifier the next \<^verbatim>\<open>setTimeout\<close> returns, and \<open>fired\<close> is the log of the
  calls of \<^verbatim>\<open>callbacks.onStep\<close> and \<^verbatim>\<open>callbacks.onComplete\<close>, in order. The
  step type and the number type of the speed multiplier are parameters: the controller
  never looks into a step, and it only stores the speed and divides by it.
\<close>

datatype 'a Callback = OnStep 'a | OnComplete

record ('a, 's) Playback =
  stepList :: "'a list"
  index :: int
  timerId :: "nat option"
  speed :: "'s"
  pending :: "(nat \<times> nat \<times> 's) list"
  nextId :: nat
  fired :: "'a Callback list"

definition baseDelay :: nat where
  "baseDelay = 600"

definition createPlayback :: "'a list \<Rightarrow> ('a, 's::one) Playback" where
  "createPlayback ss = \<lparr>stepList = ss, index = 0, timerId = None, speed = 1, pending = [], nextId = 1, fired = []\<rparr>"

definition emitCurrent :: "('a, 's) Playback \<Rightarrow> ('a, 's) Playback" where
  "emitCurrent pb =
     (if index pb \<ge> 0 \<and> index pb < int (length (stepList pb))
      then pb\<lparr>fired := fired pb @ [OnStep (stepList pb ! nat (index pb))]\<rparr>
      else pb)"

definition onComplete :: "('a, 's) Playback \<Rightarrow> ('a, 's) Playback" where
  "onComplete pb = pb\<lparr>fired := fired pb @ [OnComplete]\<rparr>"

definition clearTimeout :: "nat \<Rightarrow> ('a, 's) Playback \<Rightarrow> ('a, 's) Playback" where
  "clearTimeout t pb = pb\<lparr>pending := filter (\<lambda>(i, d). i \<noteq> t) (pending pb)\<rparr>"

definition setTimeout :: "nat \<times> 's \<Rightarrow> ('a, 's) Playback \<Rightarrow> ('a, 's) Playback" where
  "setTimeout delay pb =
     pb\<lparr>timerId := Some (nextId pb), pending := pending pb @ [(nextId pb, delay)], nextId := nextId pb + 1\<rparr>"

definition stop :: "('a, 's) Playback \<Rightarrow> ('a, 's) Playback" where
  "stop pb = (case timerId pb of None \<Rightarrow> pb | Some t \<Rightarrow> (clearTimeout t pb)\<lparr>timerId := None\<rparr>)"

definition tick :: "('a, 's) Playback \<Rightarrow> ('a, 's) Playback" where
  "tick pb =
     (if index pb \<ge> int (length (stepList pb)) then onComplete pb
      else
        (let pb = emitCurrent pb;
             pb = pb\<lparr>index := index pb + 1\<rparr>
         in setTimeout (baseDelay, speed pb) pb))"

definition play :: "('a, 's) Playback \<Rightarrow> ('a, 's) Playback" where
  "play pb = tick (stop pb)"

definition pause :: "('a, 's) Playback \<Rightarrow> ('a, 's) Playback" where
  "pause pb = stop pb"

definition stepForward :: "('a, 's) Playback \<Rightarrow> ('a, 's) Playback" where
  "stepForward pb =
     (let pb = stop pb;
          pb = (if index pb < int (length (stepList pb))
                then (let pb = emitCurrent pb in pb\<lparr>index := index pb + 1\<rparr>)
                else pb)
      in if index pb \<ge> int (length (stepList pb)) then onComplete pb else pb)"

definition stepBackward :: "('a, 's) Playback \<Rightarrow> ('a, 's) Playback" where
  "stepBackward pb =
     (let pb = stop pb
      in if index pb > 0 then emitCurrent (pb\<lparr>index := index pb - 1\<rparr>) else pb)"

definition goToStart :: "('a, 's) Playback \<Rightarrow> ('a, 's) Playback" where
  "goToStart pb = emitCurrent ((stop pb)\<lparr>index := 0\<rparr>)"

definition goToEnd :: "('a, 's) Playback \<Rightarrow> ('a, 's) Playback" where
  "goToEnd pb =
     (let pb = stop pb;
          pb = pb\<lparr>index := int (length (stepList pb)) - 1\<rparr>;
          pb = emitCurrent pb
      in pb\<lparr>index := int (length (stepList pb))\<rparr>)"

definition setSpeed :: "'s \<Rightarrow> ('a, 's) Playback \<Rightarrow> ('a, 's) Playback" where
  "setSpeed s pb = pb\<lparr>speed := s\<rparr>"

definition getIndex :: "('a, 's) Playback \<Rightarrow> int" where
  "getIndex pb = index pb"

definition getTotal :: "('a, 's) Playback \<Rightarrow> int" where
  "getTotal pb = int (length (stepList pb))"

definition destroy :: "('a, 's) Playback \<Rightarrow> ('a, 's) Playback" where
  "destroy pb = stop pb"

text \<open>
  The environment's part: \<open>timeout\<close> is the expiry of the oldest pending timeout, which
  runs \<^verbatim>\<open>tick\<close>; \<open>run\<close> lets timeouts expire until none is pending, with no call
  from the user in between. The delay decides when a timeout expires, not whether.
\<close>

definition timeout :: "('a, 's) Playback \<Rightarrow> ('a, 's) Playback" where
  "timeout pb = (case pending pb of [] \<Rightarrow> pb | e # rest \<Rightarrow> tick (pb\<lparr>pending := rest\<rparr>))"

function run :: "('a, 's) Playback \<Rightarrow> ('a, 's) Playback" where
  "run pb = (if pending pb = [] then pb else run (timeout pb))"
  by pat_completeness auto
termination
  by (relation "measures [\<lambda>pb. nat (int (length (stepList pb)) - index pb), \<lambda>pb. length (pending pb)]")
     (auto simp: timeout_def tick_def onComplete_def emitCurrent_def setTimeout_def Let_def split: list.splits)

declare run.simps [simp del]

section \<open>The store: insertNode and removeNode on objects\<close>

text \<open>
  \<^verbatim>\<open>insertNode\<close> and \<^verbatim>\<open>removeNode\<close> assign to fields of node objects
  (\<^verbatim>\<open>node.left = ...\<close>, \<^verbatim>\<open>node.right = ...\<close>, \<^verbatim>\<open>node.value = ...\<close>). What this
  does to the caller's tree depends on which objects are shared, so this section models
  the same code over an explicit store. A reference is an address or \<^verbatim>\<open>null\<close>
  (\<open>None\<close>); the store lists the node objects by address; an object literal appends
  a new object. Step objects, maps and arrays are values, as before: they are built
  fresh and hold no node, except for the snapshot, which is the address of a clone.

  The functions pass the store along and return \<open>None\<close> when they do not return:
  \<^verbatim>\<open>cloneTree\<close> and the other recursions need not terminate on a store with a cycle,
  and an address outside the store is a reference no program can hold.
\<close>

type_synonym ref = "nat option"

record TreeObj =
  value_of :: int
  left_of :: ref
  right_of :: ref

type_synonym store = "TreeObj list"

partial_function (option) cloneTree_s :: "ref \<Rightarrow> store \<Rightarrow> (ref \<times> store) option" where
  "cloneTree_s node h =
     (case node of
        None \<Rightarrow> Some (None, h)
      | Some a \<Rightarrow>
          if a < length h then
            Option.bind (cloneTree_s (left_of (h ! a)) h) (\<lambda>(l, h1).
            Option.bind (cloneTree_s (right_of (h1 ! a)) h1) (\<lambda>(r, h2).
            Some (Some (length h2), h2 @ [\<lparr>value_of = value_of (h ! a), left_of = l, right_of = r\<rparr>])))
          else None)"

definition makeStep_s ::
  "ref \<Rightarrow> string \<Rightarrow> (int \<times> HighlightType) list \<Rightarrow> (int \<times> int) list \<Rightarrow> int option
    \<Rightarrow> int option \<Rightarrow> store \<Rightarrow> (ref AnimationStep \<times> store) option" where
  "makeStep_s t d highlights es cl an h =
     Option.bind (cloneTree_s t h) (\<lambda>(snapshot, h).
     Some (\<lparr>highlightNodes = Map_new highlights, highlightEdges = es, tree = snapshot,
            description = d, codeLine = cl, activeNode = an\<rparr>, h))"

definition makeTraversalStep_s ::
  "ref \<Rightarrow> string \<Rightarrow> int \<Rightarrow> HighlightType \<Rightarrow> (int \<times> HighlightType) list
    \<Rightarrow> (int \<times> int) list \<Rightarrow> int \<Rightarrow> store \<Rightarrow> (ref AnimationStep \<times> store) option" where
  "makeTraversalStep_s t d currentNode currentType visitedNodes visitedEdges cl h =
     Option.bind (cloneTree_s t h) (\<lambda>(snapshot, h).
     Some (\<lparr>highlightNodes = AList.update currentNode currentType visitedNodes,
            highlightEdges = visitedEdges, tree = snapshot,
            description = d, codeLine = Some cl, activeNode = Some currentNode\<rparr>, h))"

definition pushStep :: "(ref AnimationStep \<times> store) option \<Rightarrow> ref Recorder \<Rightarrow> (ref Recorder \<times> store) option" where
  "pushStep made st = map_option (\<lambda>(s, h). (push s st, h)) made"

partial_function (option) insert_s ::
  "ref \<Rightarrow> int \<Rightarrow> ref \<Rightarrow> int option \<Rightarrow> ref Recorder \<Rightarrow> store \<Rightarrow> (nat \<times> ref Recorder \<times> store) option" where
  "insert_s root v node parent st h =
     (case node of
        None \<Rightarrow> Some (length h, st, h @ [\<lparr>value_of = v, left_of = None, right_of = None\<rparr>])
      | Some a \<Rightarrow>
          if a < length h then
            (let st = pushParentEdge parent (value_of (h ! a)) st;
                 st = setNode (value_of (h ! a)) Visiting st
             in Option.bind (pushStep (makeTraversalStep_s root (''Compare '' @ show_int v @ '' with '' @ show_int (value_of (h ! a))) (value_of (h ! a)) Visiting (nodes st) (edges st) 0 h) st) (\<lambda>(st, h).
                if v < value_of (h ! a) then
                  Option.bind (pushStep (makeTraversalStep_s root (show_int v @ '' < '' @ show_int (value_of (h ! a)) @ '', go left'') (value_of (h ! a)) Visiting (nodes st) (edges st) 2 h) st) (\<lambda>(st, h).
                  Option.bind (insert_s root v (left_of (h ! a)) (Some (value_of (h ! a))) st h) (\<lambda>(l, st, h).
                  Some (a, st, h[a := (h ! a)\<lparr>left_of := Some l\<rparr>])))
                else if v > value_of (h ! a) then
                  Option.bind (pushStep (makeTraversalStep_s root (show_int v @ '' > '' @ show_int (value_of (h ! a)) @ '', go right'') (value_of (h ! a)) Visiting (nodes st) (edges st) 4 h) st) (\<lambda>(st, h).
                  Option.bind (insert_s root v (right_of (h ! a)) (Some (value_of (h ! a))) st h) (\<lambda>(r, st, h).
                  Some (a, st, h[a := (h ! a)\<lparr>right_of := Some r\<rparr>])))
                else Some (a, st, h)))
          else None)"

partial_function (option) findMin_s :: "nat \<Rightarrow> store \<Rightarrow> nat option" where
  "findMin_s cur h =
     (if cur < length h then
        (case left_of (h ! cur) of None \<Rightarrow> Some cur | Some l \<Rightarrow> findMin_s l h)
      else None)"

partial_function (option) remove_s ::
  "ref \<Rightarrow> int \<Rightarrow> ref \<Rightarrow> int option \<Rightarrow> ref Recorder \<Rightarrow> store \<Rightarrow> (ref \<times> ref Recorder \<times> store) option" where
  "remove_s root v node parent st h =
     (case node of
        None \<Rightarrow>
          map_option (\<lambda>(st, h). (None, st, h))
            (pushStep (makeStep_s root (show_int v @ '' not found'') (nodes st) (edges st) (Some 1) None h) st)
      | Some a \<Rightarrow>
          if a < length h then
            (let st = pushParentEdge parent (value_of (h ! a)) st;
                 st = setNode (value_of (h ! a)) Visiting st
             in Option.bind (pushStep (makeTraversalStep_s root (''Visit '' @ show_int (value_of (h ! a))) (value_of (h ! a)) Visiting (nodes st) (edges st) 0 h) st) (\<lambda>(st, h).
                if v < value_of (h ! a) then
                  Option.bind (pushStep (makeTraversalStep_s root (show_int v @ '' < '' @ show_int (value_of (h ! a)) @ '', go left'') (value_of (h ! a)) Visiting (nodes st) (edges st) 2 h) st) (\<lambda>(st, h).
                  Option.bind (remove_s root v (left_of (h ! a)) (Some (value_of (h ! a))) st h) (\<lambda>(l, st, h).
                  Some (Some a, st, h[a := (h ! a)\<lparr>left_of := l\<rparr>])))
                else if v > value_of (h ! a) then
                  Option.bind (pushStep (makeTraversalStep_s root (show_int v @ '' > '' @ show_int (value_of (h ! a)) @ '', go right'') (value_of (h ! a)) Visiting (nodes st) (edges st) 4 h) st) (\<lambda>(st, h).
                  Option.bind (remove_s root v (right_of (h ! a)) (Some (value_of (h ! a))) st h) (\<lambda>(r, st, h).
                  Some (Some a, st, h[a := (h ! a)\<lparr>right_of := r\<rparr>])))
                else
                  (let st = setNode (value_of (h ! a)) Removing st
                   in Option.bind (pushStep (makeTraversalStep_s root (''Found '' @ show_int (value_of (h ! a)) @ '', removing'') (value_of (h ! a)) Removing (nodes st) (edges st) 6 h) st) (\<lambda>(st, h).
                      case (left_of (h ! a), right_of (h ! a)) of
                        (None, None) \<Rightarrow>
                          map_option (\<lambda>(st, h). (None, st, h))
                            (pushStep (makeTraversalStep_s root (show_int (value_of (h ! a)) @ '' is a leaf, remove it'') (value_of (h ! a)) Removing (nodes st) (edges st) 7 h) st)
                      | (None, Some ra) \<Rightarrow>
                          map_option (\<lambda>(st, h). (right_of (h ! a), st, h))
                            (pushStep (makeTraversalStep_s root (show_int (value_of (h ! a)) @ '' has one child, replace'') (value_of (h ! a)) Removing (nodes st) (edges st) 8 h) st)
                      | (Some la, None) \<Rightarrow>
                          map_option (\<lambda>(st, h). (left_of (h ! a), st, h))
                            (pushStep (makeTraversalStep_s root (show_int (value_of (h ! a)) @ '' has one child, replace'') (value_of (h ! a)) Removing (nodes st) (edges st) 8 h) st)
                      | (Some la, Some ra) \<Rightarrow>
                          Option.bind (findMin_s ra h) (\<lambda>successor.
                          let st = setNode (value_of (h ! successor)) Found st
                          in Option.bind (pushStep (makeStep_s root (''Two children, find successor: '' @ show_int (value_of (h ! successor))) (nodes st) (edges st) (Some 9) None h) st) (\<lambda>(st, h).
                             Option.bind (pushStep (makeStep_s root (''Replace '' @ show_int (value_of (h ! a)) @ '' with '' @ show_int (value_of (h ! successor))) (nodes st) (edges st) (Some 10) None h) st) (\<lambda>(st, h).
                             let h = h[a := (h ! a)\<lparr>value_of := value_of (h ! successor)\<rparr>]
                             in Option.bind (remove_s root v (right_of (h ! a)) (Some (value_of (h ! a))) st h) (\<lambda>(r, st, h).
                                Some (Some a, st, h[a := (h ! a)\<lparr>right_of := r\<rparr>])))))))))
          else None)"

definition insertNode_s :: "ref \<Rightarrow> int \<Rightarrow> store \<Rightarrow> ((nat \<times> ref AnimationStep list) \<times> store) option" where
  "insertNode_s root v h =
     (case root of
        None \<Rightarrow>
          (let newRoot = length h;
               h = h @ [\<lparr>value_of = v, left_of = None, right_of = None\<rparr>]
           in map_option (\<lambda>(s, h). ((newRoot, [s]), h))
                (makeStep_s (Some newRoot) (''Insert '' @ show_int v @ '' as root'') [(v, Inserting)] [] (Some 1) None h))
      | Some a \<Rightarrow>
          Option.bind (cloneTree_s root h) (\<lambda>(root, h).
          Option.bind (insert_s root v root None emptyRecorder h) (\<lambda>(root, st, h).
          let st = setNode v Inserting st
          in map_option (\<lambda>(st, h). ((root, steps st), h))
               (pushStep (makeStep_s (Some root) (''Inserted '' @ show_int v) (nodes st) (edges st) (Some 1) None h) st))))"

definition removeNode_s :: "ref \<Rightarrow> int \<Rightarrow> store \<Rightarrow> ((ref \<times> ref AnimationStep list) \<times> store) option" where
  "removeNode_s root v h =
     Option.bind (cloneTree_s root h) (\<lambda>(root, h).
     Option.bind (remove_s root v root None emptyRecorder h) (\<lambda>(root, st, h).
     map_option (\<lambda>(st, h). ((root, steps st), h))
       (pushStep (makeStep_s root ''Removal complete'' (nodes st) (edges st) None None h) st)))"

section \<open>Predicates on stores\<close>

text \<open>
  \<open>is_tree h p t\<close>: following the links from \<open>p\<close> in the store \<open>h\<close> reads off the
  tree \<open>t\<close> (objects may be shared). \<open>tree_at h p t A\<close>: moreover no object is reached
  twice, and \<open>A\<close> is the set of the addresses reached. \<open>ext h h'\<close>: the store \<open>h'\<close> has
  every object of \<open>h\<close>, unchanged, and possibly new ones; \<open>frame h A h'\<close> allows changes
  at the addresses in \<open>A\<close>. \<open>remove_tree\<close> is the tree that the inner \<^verbatim>\<open>remove\<close>
  returns, without the steps.
\<close>

fun is_tree :: "store \<Rightarrow> ref \<Rightarrow> TreeNode \<Rightarrow> bool" where
  "is_tree h None Leaf = True"
| "is_tree h (Some a) \<langle>l, v, r\<rangle> =
     (a < length h \<and> value_of (h ! a) = v \<and> is_tree h (left_of (h ! a)) l \<and> is_tree h (right_of (h ! a)) r)"
| "is_tree h None \<langle>l, v, r\<rangle> = False"
| "is_tree h (Some a) Leaf = False"

fun tree_at :: "store \<Rightarrow> ref \<Rightarrow> TreeNode \<Rightarrow> nat set \<Rightarrow> bool" where
  "tree_at h p Leaf A = (p = None \<and> A = {})"
| "tree_at h p \<langle>l, v, r\<rangle> A =
     (\<exists>a Al Ar. p = Some a \<and> a < length h \<and> value_of (h ! a) = v
        \<and> tree_at h (left_of (h ! a)) l Al \<and> tree_at h (right_of (h ! a)) r Ar
        \<and> a \<notin> Al \<and> a \<notin> Ar \<and> Al \<inter> Ar = {} \<and> A = Set.insert a (Al \<union> Ar))"

definition ext :: "store \<Rightarrow> store \<Rightarrow> bool" where
  "ext h h' = (length h \<le> length h' \<and> (\<forall>a < length h. h' ! a = h ! a))"

declare cloneTree_s.simps [code]
declare insert_s.simps [code]
declare findMin_s.simps [code]
declare remove_s.simps [code]

fun remove_tree :: "int \<Rightarrow> TreeNode \<Rightarrow> TreeNode" where
  "remove_tree v Leaf = Leaf"
| "remove_tree v \<langle>l, nv, r\<rangle> =
     (if v < nv then \<langle>remove_tree v l, nv, r\<rangle>
      else if v > nv then \<langle>l, nv, remove_tree v r\<rangle>
      else if l = Leaf \<and> r = Leaf then Leaf
      else if l = Leaf then r
      else if r = Leaf then l
      else \<langle>l, tree.value (findMin r), remove_tree v r\<rangle>)"

definition cloneable :: "store \<Rightarrow> ref \<Rightarrow> bool" where
  "cloneable h p = (\<exists>t. is_tree h p t)"

definition frame :: "store \<Rightarrow> nat set \<Rightarrow> store \<Rightarrow> bool" where
  "frame h A h' = (length h \<le> length h' \<and> (\<forall>b < length h. b \<notin> A \<longrightarrow> h' ! b = h ! b))"

definition ok :: "('a \<Rightarrow> bool) \<Rightarrow> 'a option \<Rightarrow> bool" where
  "ok Q m = (case m of None \<Rightarrow> False | Some x \<Rightarrow> Q x)"

definition post :: "store \<Rightarrow> nat set \<Rightarrow> TreeNode \<Rightarrow> ref \<times> ref Recorder \<times> store \<Rightarrow> bool" where
  "post h A t' = (\<lambda>(res, st', h').
     \<exists>A'. tree_at h' res t' A' \<and> A' \<subseteq> A \<union> {length h..<length h'} \<and> frame h A h')"

text \<open>An example store: the tree \<open>three_nodes\<close>, with its root at address 2.\<close>

definition three_nodes_store :: store where
  "three_nodes_store =
     [\<lparr>value_of = 1, left_of = None, right_of = None\<rparr>,
      \<lparr>value_of = 3, left_of = None, right_of = None\<rparr>,
      \<lparr>value_of = 2, left_of = Some 0, right_of = Some 1\<rparr>]"

section \<open>Predicates on step lists\<close>

text \<open>A step's \<^verbatim>\<open>codeLine\<close>, when present, is an index below \<open>m\<close>.\<close>

definition line_ok :: "int \<Rightarrow> 't AnimationStep \<Rightarrow> bool" where
  "line_ok m s = (case codeLine s of None \<Rightarrow> True | Some c \<Rightarrow> 0 \<le> c \<and> c < m)"

definition lines_ok :: "int \<Rightarrow> 't AnimationStep list \<Rightarrow> bool" where
  "lines_ok m ss = (\<forall>s \<in> set ss. \<forall>c. codeLine s = Some c \<longrightarrow> 0 \<le> c \<and> c < m)"

text \<open>
  What step \<open>b\<close> keeps of step \<open>a\<close>: every highlighted edge of \<open>a\<close>, and every node that
  \<open>a\<close> highlights as visited (\<open>Found\<close>), under some highlight. \<open>covers\<close> says the same
  of a step and the recorder's current edge list and node map; \<open>cumulative\<close> is the
  invariant of the traversals.
\<close>

definition kept :: "'t AnimationStep \<Rightarrow> 't AnimationStep \<Rightarrow> bool" where
  "kept a b = (set (highlightEdges a) \<subseteq> set (highlightEdges b)
     \<and> (\<forall>n. (n, Found) \<in> set (highlightNodes a) \<longrightarrow> n \<in> fst ` set (highlightNodes b)))"

definition covers :: "('t, 'z) Recorder_scheme \<Rightarrow> 't AnimationStep \<Rightarrow> bool" where
  "covers st a = (set (highlightEdges a) \<subseteq> set (edges st)
     \<and> (\<forall>n. (n, Found) \<in> set (highlightNodes a) \<longrightarrow> n \<in> fst ` set (nodes st)))"

definition cumulative :: "('t, 'z) Recorder_scheme \<Rightarrow> bool" where
  "cumulative st = (sorted_wrt kept (steps st) \<and> (\<forall>a \<in> set (steps st). covers st a))"

section \<open>Example inputs\<close>

definition two_nodes :: TreeNode where
  "two_nodes = \<langle>\<langle>Leaf, 1, Leaf\<rangle>, 2, Leaf\<rangle>"

definition three_nodes :: TreeNode where
  "three_nodes = \<langle>\<langle>Leaf, 1, Leaf\<rangle>, 2, \<langle>Leaf, 3, Leaf\<rangle>\<rangle>"

section \<open>Basic facts\<close>

lemma cloneTree_id [simp]: "cloneTree t = t"
  by (induction t) auto

lemma countNodes_size: "countNodes t = int (size t)"
  by (induction t) auto

lemma inorder_sorted_list: "bst t \<Longrightarrow> inorder t = sorted_list_of_set (set_tree t)"
proof -
  assume "bst t"
  then have "sorted_wrt (<) (inorder t)" by (simp add: bst_iff_sorted_wrt_less)
  then have "sorted (inorder t)" "distinct (inorder t)"
    by (simp_all add: strict_sorted_iff)
  then have "sorted_list_of_set (set (inorder t)) = inorder t"
    by (rule sorted_list_of_set.idem_if_sorted_distinct)
  then show ?thesis by simp
qed

lemma bst_two_nodes: "bst two_nodes"
  by (simp add: two_nodes_def)

lemma bst_three_nodes: "bst three_nodes"
  by (simp add: three_nodes_def)

section \<open>Search finds exactly the values of the tree\<close>

lemma search_loop_found:
  "bst t \<Longrightarrow> fst (search_loop root v t parent st) = (v \<in> set_tree t)"
  by (induction t arbitrary: parent st) (auto simp: Let_def)

text \<open>
  C1. For every binary search tree \<open>t\<close> (the empty tree included) and every integer
  \<open>v\<close>, the \<^verbatim>\<open>found\<close> component of \<^verbatim>\<open>searchNode(t, v)\<close> is true exactly when some
  node of \<open>t\<close> holds \<open>v\<close>.
\<close>

theorem searchNode_found: "bst t \<Longrightarrow> fst (searchNode t v) = (v \<in> set_tree t)"
  using search_loop_found[of t t v None emptyRecorder]
  by (auto simp: searchNode_def Let_def split: prod.splits bool.splits)

theorem searchNode_found_witness:
  "bst three_nodes \<and> fst (searchNode three_nodes 3) \<and> 3 \<in> set_tree three_nodes
   \<and> \<not> fst (searchNode three_nodes 4) \<and> 4 \<notin> set_tree three_nodes"
  using searchNode_found[OF bst_three_nodes, of 3] searchNode_found[OF bst_three_nodes, of 4]
  by (simp add: three_nodes_def)

section \<open>Inserting a value that is present\<close>

lemma insert_present:
  "bst t \<Longrightarrow> v \<in> set_tree t \<Longrightarrow> fst (insert root v t parent st) = t"
  by (induction t arbitrary: parent st) (auto simp: Let_def case_prod_beta)

text \<open>
  C8. For every binary search tree \<open>t\<close> and every value \<open>v\<close> that occurs in \<open>t\<close>,
  \<^verbatim>\<open>insertNode(t, v)\<close> returns (the function is total) a root that is structurally equal
  to \<open>t\<close>: same shape, same values, same node count.
\<close>

theorem insertNode_present: "bst t \<Longrightarrow> v \<in> set_tree t \<Longrightarrow> fst (insertNode t v) = t"
  using insert_present[of t v t None emptyRecorder]
  by (auto simp: insertNode_def Let_def case_prod_beta)

theorem insertNode_present_witness:
  "bst three_nodes \<and> 3 \<in> set_tree three_nodes \<and> fst (insertNode three_nodes 3) = three_nodes"
proof -
  have h: "3 \<in> set_tree three_nodes" by (simp add: three_nodes_def)
  show ?thesis using insertNode_present[OF bst_three_nodes h] bst_three_nodes h by simp
qed

section \<open>Removing a node with two children\<close>

text \<open>
  C2. The claim: after any sequence of \<^verbatim>\<open>insertNode\<close> and \<^verbatim>\<open>removeNode\<close> calls on a
  binary search tree, the root is a binary search tree again. The code breaks it when
  the removed node has two children. The inner \<^verbatim>\<open>remove\<close> copies the successor's value
  into the node and then calls \<^verbatim>\<open>remove(node.right, node.value)\<close>, whose second argument
  is the \<^verbatim>\<open>parent\<close> parameter: the search below still looks for the value that was to
  be removed, does not find it, and leaves the successor in the right subtree. Removing
  2 from the tree with root 2 and children 1 and 3 gives root 3 over children 1 and 3.
\<close>

theorem removeNode_two_children_not_bst:
  "bst three_nodes
   \<and> fst (removeNode three_nodes 2) = \<langle>\<langle>Leaf, 1, Leaf\<rangle>, 3, \<langle>Leaf, 3, Leaf\<rangle>\<rangle>
   \<and> \<not> bst (fst (removeNode three_nodes 2))"
  by code_simp

text \<open>
  C3. The claim: removing a value that occurs in the tree lowers the node count by one.
  On the same input the count stays at 3 (the same defect as for C2): the value 2 is
  gone, and the value 3 is there twice.
\<close>

theorem removeNode_two_children_count:
  "2 \<in> set_tree three_nodes \<and> countNodes three_nodes = 3
   \<and> countNodes (fst (removeNode three_nodes 2)) = 3
   \<and> inorder (fst (removeNode three_nodes 2)) = [1, 3, 3]"
  by code_simp

section \<open>Select k-th smallest\<close>

lemma select_fields [simp]:
  "result (push s st) = result st" "count (push s st) = count st"
  "result (setNode a b st) = result st" "count (setNode a b st) = count st"
  "result (pushEdge e st) = result st" "count (pushEdge e st) = count st"
  "result (pushChildEdge nv c st) = result st" "count (pushChildEdge nv c st) = count st"
  by (auto simp: push_def setNode_def pushEdge_def pushChildEdge_def split: tree.splits)

lemma select_walk_done: "result st \<noteq> None \<Longrightarrow> select_walk root k t st = st"
  by (cases t) auto

text \<open>
  The walk from a state without a result, with the counter at \<open>count st\<close>: the \<open>k\<close>-th
  increment of the counter happens at the node of in-order rank \<open>k - count st\<close>, if the
  subtree has one; afterwards the counter is at least \<open>k\<close> and never equals it again.
\<close>

lemma select_walk_spec:
  "result st = None \<Longrightarrow>
   (if count st < k \<and> k \<le> count st + int (size t)
    then result (select_walk root k t st) = Some (inorder t ! nat (k - count st - 1))
         \<and> k \<le> count (select_walk root k t st)
    else result (select_walk root k t st) = None
         \<and> count (select_walk root k t st) = count st + int (size t))"
proof (induction t arbitrary: st)
  case Leaf
  then show ?case by simp
next
  case (Node l nv r)
  define st1 where "st1 = pushChildEdge nv l st"
  define st2 where "st2 = select_walk root k l st1"
  define st5 where "st5 = push (makeTraversalStep root (''Visit '' @ show_int nv @ '' (count='' @ show_int (count st2 + 1) @ '')'') nv Visiting
       (nodes (setNode nv Visiting (st2\<lparr>count := count st2 + 1\<rparr>))) (edges (setNode nv Visiting (st2\<lparr>count := count st2 + 1\<rparr>))) 2)
       (setNode nv Visiting (st2\<lparr>count := count st2 + 1\<rparr>))"
  define st6 where "st6 = pushChildEdge nv r st5"
  have st1: "result st1 = None" "count st1 = count st"
    using Node.prems by (simp_all add: st1_def)
  have st5: "result st5 = result st2" "count st5 = count st2 + 1"
    by (simp_all add: st5_def setNode_def)
  have st6: "result st6 = result st2" "count st6 = count st2 + 1"
    by (simp_all add: st6_def st5)
  have unfold: "select_walk root k \<langle>l, nv, r\<rangle> st =
      (if count st5 = k
       then push (makeTraversalStep root (show_int k @ ''-th smallest is '' @ show_int nv) nv Found
              (nodes (setNode nv Found (st5\<lparr>result := Some nv\<rparr>))) (edges (setNode nv Found (st5\<lparr>result := Some nv\<rparr>))) 4)
              (setNode nv Found (st5\<lparr>result := Some nv\<rparr>))
       else select_walk root k r st6)"
    using Node.prems by (simp add: Let_def st1_def st2_def st5_def st6_def setNode_def)
  have IHl: "if count st < k \<and> k \<le> count st + int (size l)
    then result st2 = Some (inorder l ! nat (k - count st - 1)) \<and> k \<le> count st2
    else result st2 = None \<and> count st2 = count st + int (size l)"
    using Node.IH(1)[OF st1(1)] by (simp add: st2_def st1)
  show ?case
  proof (cases "count st < k \<and> k \<le> count st + int (size l)")
    case True
    with IHl have a: "result st2 = Some (inorder l ! nat (k - count st - 1))" "k \<le> count st2"
      by simp_all
    have "select_walk root k \<langle>l, nv, r\<rangle> st = st6"
      using a unfold st5 st6 by (simp add: select_walk_done)
    moreover have "nat (k - count st - 1) < length (inorder l)"
      using True by auto
    ultimately show ?thesis using True a st6 by (simp add: nth_append)
  next
    case False
    with IHl have a: "result st2 = None" "count st2 = count st + int (size l)"
      by simp_all
    show ?thesis
    proof (cases "k = count st + int (size l) + 1")
      case True
      then show ?thesis using a unfold st5 by (simp add: nth_append setNode_def)
    next
      case k: False
      have u: "select_walk root k \<langle>l, nv, r\<rangle> st = select_walk root k r st6"
        using k a unfold st5 by simp
      have r6: "result st6 = None" using a st6 by simp
      note IHr = Node.IH(2)[OF r6]
      show ?thesis
      proof (cases "count st6 < k \<and> k \<le> count st6 + int (size r)")
        case True
        then have "nat (k - count st - 1) = size l + 1 + nat (k - count st6 - 1)"
          using a st6 by auto
        then have "inorder \<langle>l, nv, r\<rangle> ! nat (k - count st - 1) = inorder r ! nat (k - count st6 - 1)"
          by (simp add: nth_append)
        then show ?thesis using True IHr u a st6 by auto
      next
        case F2: False
        then show ?thesis using IHr u a st6 False k by auto
      qed
    qed
  qed
qed

lemma selectKth_result:
  "fst (selectKth t k) = (if 1 \<le> k \<and> k \<le> countNodes t then Some (inorder t ! nat (k - 1)) else None)"
proof -
  define st0 :: "TreeNode SelectState" where
    "st0 = push (makeStep t (''Select '' @ show_int k @ ''-th smallest'') [] [] (Some 0) None)
             \<lparr>steps = [], nodes = [], edges = [], count = 0, result = None\<rparr>"
  have s0: "result st0 = None" "count st0 = 0" by (simp_all add: st0_def)
  have "fst (selectKth t k) = result (select_walk t k t st0)"
    by (simp add: selectKth_def Let_def st0_def split: option.splits)
  then show ?thesis
    using select_walk_spec[OF s0(1), of k t t] s0(2)
    by (auto simp: countNodes_size)
qed

text \<open>
  C6. For every binary search tree \<open>t\<close> and integer \<open>k\<close>: when
  \<open>1 \<le> k \<le> countNodes t\<close>, the result of \<^verbatim>\<open>selectKth(t, k)\<close> is the value at rank
  \<open>k\<close> (counted from 1) of the sorted values of \<open>t\<close>; for every other \<open>k\<close>, zero and
  negative ones included, the call returns (the function is total) the result
  \<^verbatim>\<open>null\<close>.
\<close>

theorem selectKth_rank:
  "bst t \<Longrightarrow> fst (selectKth t k) =
     (if 1 \<le> k \<and> k \<le> countNodes t then Some (sorted_list_of_set (set_tree t) ! nat (k - 1)) else None)"
  by (simp add: selectKth_result inorder_sorted_list)

theorem selectKth_rank_witness:
  "bst three_nodes \<and> fst (selectKth three_nodes 2) = Some 2 \<and> fst (selectKth three_nodes 3) = Some 3
   \<and> fst (selectKth three_nodes 0) = None \<and> fst (selectKth three_nodes 4) = None
   \<and> fst (selectKth three_nodes (- 1)) = None"
proof -
  have s: "sorted_list_of_set (set_tree three_nodes) = [1, 2, 3]"
    using inorder_sorted_list[OF bst_three_nodes] by (simp add: three_nodes_def)
  show ?thesis
    using selectKth_rank[OF bst_three_nodes, of 2] selectKth_rank[OF bst_three_nodes, of 3]
      selectKth_rank[OF bst_three_nodes, of 0] selectKth_rank[OF bst_three_nodes, of 4]
      selectKth_rank[OF bst_three_nodes, of "- 1"] bst_three_nodes
    by (simp add: s) (simp add: three_nodes_def)
qed

text \<open>
  C7. The claim: once the counter equals \<open>k\<close> and the found step is emitted, no further
  visit step appears. \<^verbatim>\<open>walk\<close> tests \<^verbatim>\<open>result !== null\<close> on entry only, so every
  ancestor that was waiting for its left subtree goes on after the call returns: it
  increments the counter and pushes its own visit step (and its right edge). Selecting
  the smallest value of the tree with root 2 and left child 1 emits
  \<^verbatim>\<open>Visit 2 (count=2)\<close> after \<^verbatim>\<open>1-th smallest is 1\<close>.
\<close>

theorem selectKth_visits_after_found:
  "fst (selectKth two_nodes 1) = Some 1
   \<and> map description (snd (selectKth two_nodes 1)) =
       [''Select 1-th smallest'', ''Visit 1 (count=1)'', ''1-th smallest is 1'',
        ''Visit 2 (count=2)'', ''Result: 1'']
   \<and> map codeLine (snd (selectKth two_nodes 1)) = [Some 0, Some 2, Some 4, Some 2, Some 6]"
  by code_simp

section \<open>Code lines index the pseudocode of the operation\<close>

lemma lines_ok_Nil [simp]: "lines_ok m []"
  by (simp add: lines_ok_def)

lemma lines_ok_append [simp]: "lines_ok m (xs @ ys) = (lines_ok m xs \<and> lines_ok m ys)"
  by (auto simp: lines_ok_def)

lemma lines_ok_Cons [simp]: "lines_ok m (s # ss) = (line_ok m s \<and> lines_ok m ss)"
  by (auto simp: lines_ok_def line_ok_def split: option.splits)

lemma line_ok_traversal [simp]:
  "line_ok m (makeTraversalStep t d n h ns es c) = (0 \<le> c \<and> c < m)"
  by (simp add: line_ok_def makeTraversalStep_def)

lemma line_ok_step [simp]:
  "line_ok m (makeStep t d ns es c a) = (case c of None \<Rightarrow> True | Some c' \<Rightarrow> 0 \<le> c' \<and> c' < m)"
  by (simp add: line_ok_def makeStep_def)

lemma steps_simps [simp]:
  "steps (push s st) = steps st @ [s]"
  "steps (setNode k h st) = steps st"
  "steps (pushEdge e st) = steps st"
  "steps (pushParentEdge p nv st) = steps st"
  "steps (pushChildEdge nv c st) = steps st"
  "steps emptyRecorder = []"
  by (auto simp: push_def setNode_def pushEdge_def pushParentEdge_def pushChildEdge_def emptyRecorder_def
      split: option.splits tree.splits)

lemma search_loop_lines: "lines_ok 7 (steps st) \<Longrightarrow> lines_ok 7 (steps (snd (search_loop root v t parent st)))"
  by (induction t arbitrary: parent st) (auto simp: Let_def)

lemma searchNode_lines: "lines_ok 7 (snd (searchNode t v))"
  using search_loop_lines[of emptyRecorder t v t None]
  by (auto simp: searchNode_def Let_def split: prod.splits bool.splits)

lemma insert_lines: "lines_ok 6 (steps st) \<Longrightarrow> lines_ok 6 (steps (snd (insert root v t parent st)))"
  by (induction t arbitrary: parent st) (auto simp: Let_def case_prod_beta)

lemma insertNode_lines: "lines_ok 6 (snd (insertNode t v))"
  using insert_lines[of emptyRecorder t v t None]
  by (auto simp: insertNode_def Let_def case_prod_beta)

lemma remove_lines: "lines_ok 12 (steps st) \<Longrightarrow> lines_ok 12 (steps (snd (remove ctx v t parent st)))"
  by (induction t arbitrary: ctx parent st) (auto simp: Let_def case_prod_beta)

lemma removeNode_lines: "lines_ok 12 (snd (removeNode t v))"
  using remove_lines[of emptyRecorder "\<lambda>t. t" v t None]
  by (auto simp: removeNode_def Let_def case_prod_beta)

lemma inorder_walk_lines: "lines_ok 5 (steps st) \<Longrightarrow> lines_ok 5 (steps (inorder_walk root t st))"
  by (induction t arbitrary: st) (auto simp: Let_def)

lemma preorder_walk_lines: "lines_ok 5 (steps st) \<Longrightarrow> lines_ok 5 (steps (preorder_walk root t st))"
  by (induction t arbitrary: st) (auto simp: Let_def)

lemma postorder_walk_lines: "lines_ok 5 (steps st) \<Longrightarrow> lines_ok 5 (steps (postorder_walk root t st))"
  by (induction t arbitrary: st) (auto simp: Let_def)

lemma traversal_lines:
  "lines_ok 5 (inorderTraversal t)" "lines_ok 5 (preorderTraversal t)" "lines_ok 5 (postorderTraversal t)"
  using inorder_walk_lines[of emptyRecorder t t] preorder_walk_lines[of emptyRecorder t t]
    postorder_walk_lines[of emptyRecorder t t]
  by (auto simp: inorderTraversal_def preorderTraversal_def postorderTraversal_def Let_def)

lemma predecessor_loop_lines:
  "lines_ok 8 (steps st) \<Longrightarrow> lines_ok 8 (steps (snd (predecessor_loop root v t parent c st)))"
  by (induction t arbitrary: parent c st) (auto simp: Let_def)

lemma successor_loop_lines:
  "lines_ok 8 (steps st) \<Longrightarrow> lines_ok 8 (steps (snd (successor_loop root v t parent c st)))"
  by (induction t arbitrary: parent c st) (auto simp: Let_def)

lemma findPredecessor_lines: "lines_ok 8 (snd (findPredecessor t v))"
  using predecessor_loop_lines[of "push (makeStep t (''Finding predecessor of '' @ show_int v) [] [] (Some 0) None) emptyRecorder" t v t None None]
  by (auto simp: findPredecessor_def Let_def case_prod_beta split: option.splits)

lemma findSuccessor_lines: "lines_ok 8 (snd (findSuccessor t v))"
  using successor_loop_lines[of "push (makeStep t (''Finding successor of '' @ show_int v) [] [] (Some 0) None) emptyRecorder" t v t None None]
  by (auto simp: findSuccessor_def Let_def case_prod_beta split: option.splits)

lemma select_walk_lines: "lines_ok 7 (steps st) \<Longrightarrow> lines_ok 7 (steps (select_walk root k t st))"
  by (induction t arbitrary: st) (auto simp: Let_def)

lemma selectKth_lines: "lines_ok 7 (snd (selectKth t k))"
  using select_walk_lines[of "push (makeStep t (''Select '' @ show_int k @ ''-th smallest'') [] [] (Some 0) None)
             \<lparr>steps = [], nodes = [], edges = [], count = 0, result = None\<rparr>" t k t]
  by (auto simp: selectKth_def Let_def split: option.splits)

lemma insertAll_lines: "lines_ok 6 acc \<Longrightarrow> lines_ok 6 (snd (insertAll t vs acc))"
  by (induction vs arbitrary: t acc) (auto simp: case_prod_beta insertNode_lines)

lemma createRandomTree_lines: "createRandomTree n draws = Some (t, ss) \<Longrightarrow> lines_ok 6 ss"
  using insertAll_lines[of "[]" Leaf]
  by (auto simp: createRandomTree_def Let_def case_prod_beta split: option.splits)

lemma pseudocode_lengths:
  "length (lines (getPseudocode Create)) = 6"
  "length (lines (getPseudocode Search)) = 7"
  "length (lines (getPseudocode Insert)) = 6"
  "length (lines (getPseudocode Remove)) = 12"
  "length (lines (getPseudocode Predecessor)) = 8"
  "length (lines (getPseudocode Successor)) = 8"
  "length (lines (getPseudocode SelectKth)) = 7"
  "length (lines (getPseudocode Inorder)) = 5"
  "length (lines (getPseudocode Preorder)) = 5"
  "length (lines (getPseudocode Postorder)) = 5"
  by (simp_all add: getPseudocode_def PSEUDOCODE_def)

lemma operationSteps_lines:
  "operationSteps kind t v n draws = Some ss \<Longrightarrow> lines_ok (int (length (lines (getPseudocode kind)))) ss"
  by (cases kind)
     (auto simp: pseudocode_lengths createRandomTree_lines searchNode_lines insertNode_lines
        removeNode_lines traversal_lines findPredecessor_lines findSuccessor_lines selectKth_lines)

text \<open>
  C10. For every operation kind and every step the operation emits: a \<^verbatim>\<open>codeLine\<close>
  that is present is a valid index into the lines of the kind's pseudocode entry,
  \<open>0 \<le> codeLine < getPseudocode(kind).lines.length\<close>.
\<close>

theorem codeLine_in_pseudocode:
  "operationSteps kind t v n draws = Some ss \<Longrightarrow> s \<in> set ss \<Longrightarrow> codeLine s = Some c
   \<Longrightarrow> 0 \<le> c \<and> c < int (length (lines (getPseudocode kind)))"
  using operationSteps_lines[of kind t v n draws ss] by (auto simp: lines_ok_def)

theorem codeLine_in_pseudocode_witness:
  "operationSteps SelectKth two_nodes 1 0 [] = Some (snd (selectKth two_nodes 1))
   \<and> snd (selectKth two_nodes 1) ! 2 \<in> set (snd (selectKth two_nodes 1))
   \<and> codeLine (snd (selectKth two_nodes 1) ! 2) = Some 4
   \<and> (0::int) \<le> 4 \<and> 4 < int (length (lines (getPseudocode SelectKth)))"
proof -
  have a: "operationSteps SelectKth two_nodes 1 0 [] = Some (snd (selectKth two_nodes 1))"
    by simp
  have "length (snd (selectKth two_nodes 1)) = 5"
    by code_simp
  then have b: "snd (selectKth two_nodes 1) ! 2 \<in> set (snd (selectKth two_nodes 1))"
    by simp
  have c: "codeLine (snd (selectKth two_nodes 1) ! 2) = Some 4"
    by code_simp
  show ?thesis
    using codeLine_in_pseudocode[OF a b c] a b c by simp
qed

section \<open>Highlights of the traversals\<close>

lemma in_update_cases:
  "(n, h) \<in> set (AList.update k v al) \<Longrightarrow> (n = k \<and> h = v) \<or> (n, h) \<in> set al"
  by (induction al) (auto split: if_splits)

lemma found_update_visiting:
  "(n, Found) \<in> set (AList.update k Visiting al) \<Longrightarrow> n \<in> fst ` set al"
  by (force dest: in_update_cases)

lemma found_update_found:
  "k \<in> fst ` set al \<Longrightarrow> (n, Found) \<in> set (AList.update k Found al) \<Longrightarrow> n \<in> fst ` set al"
  by (force dest: in_update_cases)

lemma dom_Map_new_aux:
  "fst ` set (fold (\<lambda>(k, h) m. AList.update k h m) es m0) = fst ` set es \<union> fst ` set m0"
proof (induction es arbitrary: m0)
  case Nil
  then show ?case by simp
next
  case (Cons e es)
  have "fst ` set (AList.update (fst e) (snd e) m0) = {fst e} \<union> fst ` set m0"
    by (rule dom_update)
  then show ?case using Cons.IH[of "AList.update (fst e) (snd e) m0"]
    by (auto simp: case_prod_beta)
qed

lemma dom_Map_new: "fst ` set (Map_new al) = fst ` set al"
  by (simp add: Map_new_def dom_Map_new_aux)

lemma in_Map_new: "(n, h) \<in> set (Map_new al) \<Longrightarrow> n \<in> fst ` set al"
  using dom_Map_new[of al] by force

lemma cumulative_empty: "cumulative emptyRecorder"
  by (simp add: cumulative_def emptyRecorder_def)

lemma cumulative_setNode: "cumulative st \<Longrightarrow> cumulative (setNode k h st)"
  by (auto simp: cumulative_def covers_def setNode_def dom_update)

lemma cumulative_pushChildEdge: "cumulative st \<Longrightarrow> cumulative (pushChildEdge nv c st)"
  by (auto simp: cumulative_def covers_def pushChildEdge_def pushEdge_def split: tree.splits)

lemma cumulative_push_visiting:
  "cumulative st \<Longrightarrow> cumulative (push (makeTraversalStep root d nv Visiting (nodes st) (edges st) c) st)"
  by (auto simp: cumulative_def covers_def kept_def push_def makeTraversalStep_def sorted_wrt_append dom_update
      dest: found_update_visiting)

lemma cumulative_push_found:
  assumes "cumulative st" and "nv \<in> fst ` set (nodes st)"
  shows "cumulative (push (makeTraversalStep root d nv Found (nodes st) (edges st) c) st)"
proof -
  have key: "\<And>n. (n, Found) \<in> set (AList.update nv Found (nodes st)) \<Longrightarrow> n \<in> fst ` set (nodes st)"
    using assms(2) by (rule found_update_found)
  show ?thesis
    using assms(1) key
    by (simp add: cumulative_def covers_def kept_def push_def makeTraversalStep_def sorted_wrt_append dom_update)
qed

lemma cumulative_push_final:
  "cumulative st \<Longrightarrow> cumulative (push (makeStep root d (nodes st) (edges st) c a) st)"
  by (auto simp: cumulative_def covers_def kept_def push_def makeStep_def sorted_wrt_append dom_Map_new
      dest: in_Map_new)

lemma nodes_simps [simp]:
  "nodes (push s st) = nodes st"
  "nodes (pushChildEdge nv c st) = nodes st"
  "nodes (setNode k h st) = AList.update k h (nodes st)"
  by (auto simp: push_def pushChildEdge_def pushEdge_def setNode_def split: tree.splits)

lemma edges_simps [simp]:
  "edges (push s st) = edges st"
  "edges (setNode k h st) = edges st"
  by (auto simp: push_def setNode_def)

lemma inorder_walk_cumulative: "cumulative st \<Longrightarrow> cumulative (inorder_walk root t st)"
proof (induction t arbitrary: st)
  case Leaf
  then show ?case by simp
next
  case (Node l nv r)
  define st1 where "st1 = inorder_walk root l (pushChildEdge nv l
     (push (makeTraversalStep root (''Go left from '' @ show_int nv) nv Visiting (nodes st) (edges st) 2) st))"
  define st2 where "st2 = setNode nv Found st1"
  have c1: "cumulative st1"
    unfolding st1_def by (intro Node.IH(1) cumulative_pushChildEdge cumulative_push_visiting Node.prems)
  have c2: "cumulative st2" unfolding st2_def by (rule cumulative_setNode[OF c1])
  have in2: "nv \<in> fst ` set (nodes st2)" by (simp add: st2_def dom_update)
  define st3 where "st3 = push (makeTraversalStep root (''Visit '' @ show_int nv @ '' (in-order)'') nv Found (nodes st2) (edges st2) 3) st2"
  have c3: "cumulative st3" unfolding st3_def by (rule cumulative_push_found[OF c2 in2])
  define st4 where "st4 = push (makeTraversalStep root (''Go right from '' @ show_int nv) nv Visiting (nodes st3) (edges st3) 4) st3"
  have c4: "cumulative st4" unfolding st4_def by (rule cumulative_push_visiting[OF c3])
  have "inorder_walk root \<langle>l, nv, r\<rangle> st = inorder_walk root r (pushChildEdge nv r st4)"
    by (simp add: Let_def st1_def st2_def st3_def st4_def)
  then show ?case using Node.IH(2)[OF cumulative_pushChildEdge[OF c4]] by simp
qed

lemma preorder_walk_cumulative: "cumulative st \<Longrightarrow> cumulative (preorder_walk root t st)"
proof (induction t arbitrary: st)
  case Leaf
  then show ?case by simp
next
  case (Node l nv r)
  define st1 where "st1 = setNode nv Found st"
  have c1: "cumulative st1" unfolding st1_def by (rule cumulative_setNode[OF Node.prems])
  have in1: "nv \<in> fst ` set (nodes st1)" by (simp add: st1_def dom_update)
  define st2 where "st2 = push (makeTraversalStep root (''Visit '' @ show_int nv @ '' (pre-order)'') nv Found (nodes st1) (edges st1) 2) st1"
  have c2: "cumulative st2" unfolding st2_def by (rule cumulative_push_found[OF c1 in1])
  define st3 where "st3 = preorder_walk root l (pushChildEdge nv l
     (push (makeTraversalStep root (''Go left from '' @ show_int nv) nv Visiting (nodes st2) (edges st2) 3) st2))"
  have c3: "cumulative st3"
    unfolding st3_def by (intro Node.IH(1) cumulative_pushChildEdge cumulative_push_visiting c2)
  define st4 where "st4 = push (makeTraversalStep root (''Go right from '' @ show_int nv) nv Visiting (nodes st3) (edges st3) 4) st3"
  have c4: "cumulative st4" unfolding st4_def by (rule cumulative_push_visiting[OF c3])
  have "preorder_walk root \<langle>l, nv, r\<rangle> st = preorder_walk root r (pushChildEdge nv r st4)"
    by (simp add: Let_def st1_def st2_def st3_def st4_def)
  then show ?case using Node.IH(2)[OF cumulative_pushChildEdge[OF c4]] by simp
qed

lemma postorder_walk_cumulative: "cumulative st \<Longrightarrow> cumulative (postorder_walk root t st)"
proof (induction t arbitrary: st)
  case Leaf
  then show ?case by simp
next
  case (Node l nv r)
  define st1 where "st1 = postorder_walk root l (pushChildEdge nv l
     (push (makeTraversalStep root (''Go left from '' @ show_int nv) nv Visiting (nodes st) (edges st) 2) st))"
  have c1: "cumulative st1"
    unfolding st1_def by (intro Node.IH(1) cumulative_pushChildEdge cumulative_push_visiting Node.prems)
  define st2 where "st2 = postorder_walk root r (pushChildEdge nv r
     (push (makeTraversalStep root (''Go right from '' @ show_int nv) nv Visiting (nodes st1) (edges st1) 3) st1))"
  have c2: "cumulative st2"
    unfolding st2_def by (intro Node.IH(2) cumulative_pushChildEdge cumulative_push_visiting c1)
  define st3 where "st3 = setNode nv Found st2"
  have c3: "cumulative st3" unfolding st3_def by (rule cumulative_setNode[OF c2])
  have in3: "nv \<in> fst ` set (nodes st3)" by (simp add: st3_def dom_update)
  have "postorder_walk root \<langle>l, nv, r\<rangle> st =
      push (makeTraversalStep root (''Visit '' @ show_int nv @ '' (post-order)'') nv Found (nodes st3) (edges st3) 4) st3"
    by (simp add: Let_def st1_def st2_def st3_def)
  then show ?case using cumulative_push_found[OF c3 in3] by simp
qed

lemma traversals_kept:
  "sorted_wrt kept (inorderTraversal t)" "sorted_wrt kept (preorderTraversal t)"
  "sorted_wrt kept (postorderTraversal t)"
proof -
  have "cumulative (inorder_walk t t emptyRecorder)"
    by (rule inorder_walk_cumulative[OF cumulative_empty])
  from cumulative_push_final[OF this] show "sorted_wrt kept (inorderTraversal t)"
    by (simp add: inorderTraversal_def Let_def cumulative_def)
  have "cumulative (preorder_walk t t emptyRecorder)"
    by (rule preorder_walk_cumulative[OF cumulative_empty])
  from cumulative_push_final[OF this] show "sorted_wrt kept (preorderTraversal t)"
    by (simp add: preorderTraversal_def Let_def cumulative_def)
  have "cumulative (postorder_walk t t emptyRecorder)"
    by (rule postorder_walk_cumulative[OF cumulative_empty])
  from cumulative_push_final[OF this] show "sorted_wrt kept (postorderTraversal t)"
    by (simp add: postorderTraversal_def Let_def cumulative_def)
qed

text \<open>
  C9, as amended. In the trace of each of the three traversals, every edge highlighted
  in a step is highlighted in every later step, and every node that a step highlights
  as visited (\<open>Found\<close>) is highlighted in every later step. (The \<open>Visiting\<close> highlight of
  the current node is laid over the visited nodes for one step only, and two steps in a
  row can carry the same highlights.)
\<close>

theorem traversal_highlights_kept:
  assumes "ss = inorderTraversal t \<or> ss = preorderTraversal t \<or> ss = postorderTraversal t"
    and "i < j" and "j < length ss"
  shows "set (highlightEdges (ss ! i)) \<subseteq> set (highlightEdges (ss ! j))
     \<and> (\<forall>n. (n, Found) \<in> set (highlightNodes (ss ! i)) \<longrightarrow> n \<in> fst ` set (highlightNodes (ss ! j)))"
proof -
  have "sorted_wrt kept ss" using assms(1) traversals_kept by auto
  then have "kept (ss ! i) (ss ! j)" using assms(2,3) by (simp add: sorted_wrt_iff_nth_less)
  then show ?thesis by (simp add: kept_def)
qed

theorem traversal_highlights_kept_witness:
  "(2::nat) < 5 \<and> 5 < length (inorderTraversal two_nodes)
   \<and> set (highlightEdges (inorderTraversal two_nodes ! 2)) \<subseteq> set (highlightEdges (inorderTraversal two_nodes ! 5))
   \<and> (1, Found) \<in> set (highlightNodes (inorderTraversal two_nodes ! 2))
   \<and> 1 \<in> fst ` set (highlightNodes (inorderTraversal two_nodes ! 5))"
proof -
  have len: "length (inorderTraversal two_nodes) = 7" by code_simp
  have n2: "highlightNodes (inorderTraversal two_nodes ! 2) = [(1, Found)]" by code_simp
  have h: "2 < (5::nat)" "5 < length (inorderTraversal two_nodes)" by (simp_all add: len)
  from traversal_highlights_kept[OF disjI1[OF refl] h]
  have "set (highlightEdges (inorderTraversal two_nodes ! 2)) \<subseteq> set (highlightEdges (inorderTraversal two_nodes ! 5))
     \<and> 1 \<in> fst ` set (highlightNodes (inorderTraversal two_nodes ! 5))"
    by (simp add: n2)
  then show ?thesis by (simp add: len n2)
qed

text \<open>
  C9 as stated fails for the in-order traversal of the tree with root 2 and left child 1:
  the first step (\<^verbatim>\<open>Go left from 2\<close>) highlights node 2, the second
  (\<^verbatim>\<open>Go left from 1\<close>) highlights node 1 only.
\<close>

theorem traversal_visiting_highlight_dropped:
  "length (inorderTraversal two_nodes) = 7
   \<and> map fst (highlightNodes (inorderTraversal two_nodes ! 0)) = [2]
   \<and> map fst (highlightNodes (inorderTraversal two_nodes ! 1)) = [1]
   \<and> 2 \<in> fst ` set (highlightNodes (inorderTraversal two_nodes ! 0))
   \<and> 2 \<notin> fst ` set (highlightNodes (inorderTraversal two_nodes ! 1))"
proof -
  have a: "highlightNodes (inorderTraversal two_nodes ! 0) = [(2, Visiting)]" by code_simp
  have b: "highlightNodes (inorderTraversal two_nodes ! 1) = [(1, Visiting)]" by code_simp
  have c: "length (inorderTraversal two_nodes) = 7" by code_simp
  show ?thesis using a b c by simp
qed

section \<open>Replaying a step list\<close>

lemma stop_fields [simp]:
  "fired (stop pb) = fired pb" "index (stop pb) = index pb" "stepList (stop pb) = stepList pb"
  "speed (stop pb) = speed pb"
  by (simp_all add: stop_def clearTimeout_def split: option.splits)

lemma tick_end:
  "index pb \<ge> int (length (stepList pb)) \<Longrightarrow> tick pb = onComplete pb"
  by (simp add: tick_def)

lemma tick_emit:
  "index pb = int i \<Longrightarrow> i < length (stepList pb) \<Longrightarrow>
   tick pb = setTimeout (baseDelay, speed pb)
      (pb\<lparr>fired := fired pb @ [OnStep (stepList pb ! i)], index := int i + 1\<rparr>)"
  by (simp add: tick_def emitCurrent_def Let_def)

lemma run_tick:
  "index pb = int i \<Longrightarrow> i \<le> length (stepList pb) \<Longrightarrow> pending pb = [] \<Longrightarrow>
   fired (run (tick pb)) = fired pb @ map OnStep (drop i (stepList pb)) @ [OnComplete]
   \<and> index (run (tick pb)) = int (length (stepList pb))
   \<and> stepList (run (tick pb)) = stepList pb
   \<and> pending (run (tick pb)) = []"
proof (induction "length (stepList pb) - i" arbitrary: pb i)
  case 0
  then have "tick pb = onComplete pb" by (simp add: tick_end)
  moreover have "run (onComplete pb) = onComplete pb"
    using 0 by (simp add: run.simps onComplete_def)
  ultimately show ?case using 0 by (simp add: onComplete_def)
next
  case (Suc n)
  then have lt: "i < length (stepList pb)" by simp
  define pb1 where "pb1 = pb\<lparr>fired := fired pb @ [OnStep (stepList pb ! i)], index := int i + 1\<rparr>"
  define pb2 where "pb2 = pb1\<lparr>timerId := Some (nextId pb1), nextId := nextId pb1 + 1, pending := []\<rparr>"
  have t: "tick pb = setTimeout (baseDelay, speed pb) pb1"
    using tick_emit[OF Suc.prems(1) lt] by (simp add: pb1_def)
  have "run (tick pb) = run (timeout (tick pb))"
    by (subst run.simps) (simp add: t setTimeout_def)
  also have "timeout (tick pb) = tick pb2"
    using Suc.prems(3) by (simp add: t timeout_def setTimeout_def pb1_def pb2_def)
  finally have r: "run (tick pb) = run (tick pb2)" .
  have "n = length (stepList pb2) - Suc i" "index pb2 = int (Suc i)" "Suc i \<le> length (stepList pb2)"
    "pending pb2 = []"
    using Suc.hyps(2) lt Suc.prems(3) by (simp_all add: pb2_def pb1_def)
  from Suc.hyps(1)[OF this]
  show ?case using lt by (simp add: r pb2_def pb1_def Cons_nth_drop_Suc[symmetric])
qed

lemma play_replays:
  "fired (run (play (setSpeed s (createPlayback ss)))) = map OnStep ss @ [OnComplete]
   \<and> index (run (play (setSpeed s (createPlayback ss)))) = int (length ss)
   \<and> stepList (run (play (setSpeed s (createPlayback ss)))) = ss"
proof -
  have "stop (setSpeed s (createPlayback ss)) = setSpeed s (createPlayback ss)"
    by (simp add: stop_def setSpeed_def createPlayback_def)
  then have "play (setSpeed s (createPlayback ss)) = tick (setSpeed s (createPlayback ss))"
    by (simp add: play_def)
  then show ?thesis
    using run_tick[of "setSpeed s (createPlayback ss)" 0]
    by (simp add: setSpeed_def createPlayback_def)
qed

lemma stepForward_fields:
  "stepList (stepForward pb) = stepList pb"
  "index pb = int i \<Longrightarrow> i < length (stepList pb) \<Longrightarrow> index (stepForward pb) = int (Suc i)"
  "index pb = int i \<Longrightarrow> i < length (stepList pb) \<Longrightarrow>
     fired (stepForward pb) = fired pb @ [OnStep (stepList pb ! i)]
        @ (if Suc i = length (stepList pb) then [OnComplete] else [])"
  "index pb \<ge> int (length (stepList pb)) \<Longrightarrow> index (stepForward pb) = index pb"
  "index pb \<ge> int (length (stepList pb)) \<Longrightarrow> fired (stepForward pb) = fired pb @ [OnComplete]"
  by (auto simp: stepForward_def Let_def emitCurrent_def onComplete_def)

lemma stepForward_iterate:
  "index pb = int i \<Longrightarrow> i + n \<le> length (stepList pb) \<Longrightarrow>
   index ((stepForward ^^ n) pb) = int (i + n)
   \<and> stepList ((stepForward ^^ n) pb) = stepList pb
   \<and> fired ((stepForward ^^ n) pb) = fired pb @ map OnStep (take n (drop i (stepList pb)))
        @ (if 0 < n \<and> i + n = length (stepList pb) then [OnComplete] else [])"
proof (induction n)
  case 0
  then show ?case by simp
next
  case (Suc n)
  define pb' where "pb' = (stepForward ^^ n) pb"
  have IH: "index pb' = int (i + n)" "stepList pb' = stepList pb"
    "fired pb' = fired pb @ map OnStep (take n (drop i (stepList pb)))"
    using Suc by (simp_all add: pb'_def)
  have lt: "i + n < length (stepList pb')" using Suc.prems IH(2) by simp
  have tk: "take (Suc n) (drop i (stepList pb)) = take n (drop i (stepList pb)) @ [stepList pb ! (i + n)]"
    using lt IH(2) by (simp add: take_Suc_conv_app_nth)
  show ?case
    using stepForward_fields(2,3)[OF IH(1) lt] stepForward_fields(1)[of pb'] IH(2,3) tk
    by (simp add: pb'_def[symmetric])
qed

text \<open>
  C5, as amended. For every step list, replaying it from a fresh controller to the end,
  either by \<^verbatim>\<open>play()\<close> and its timer ticks at any speed or (for a non-empty list) by
  one \<^verbatim>\<open>stepForward()\<close> call per step, calls \<^verbatim>\<open>onStep\<close> on every step exactly once
  in index order and then \<^verbatim>\<open>onComplete\<close> exactly once. A \<^verbatim>\<open>stepForward()\<close> call made
  after that, with the cursor at the list length, emits no step and calls
  \<^verbatim>\<open>onComplete\<close> again.
\<close>

theorem playback_replay:
  "fired (run (play (setSpeed s (createPlayback ss)))) = map OnStep ss @ [OnComplete]
   \<and> fired (stepForward (run (play (setSpeed s (createPlayback ss))))) = map OnStep ss @ [OnComplete, OnComplete]
   \<and> (ss \<noteq> [] \<longrightarrow>
        fired ((stepForward ^^ length ss) (setSpeed s (createPlayback ss))) = map OnStep ss @ [OnComplete]
      \<and> fired (stepForward ((stepForward ^^ length ss) (setSpeed s (createPlayback ss))))
          = map OnStep ss @ [OnComplete, OnComplete])"
proof -
  define pb0 where "pb0 = setSpeed s (createPlayback ss)"
  note p = play_replays[of s ss]
  have a: "fired (stepForward (run (play (setSpeed s (createPlayback ss))))) = map OnStep ss @ [OnComplete, OnComplete]"
    using stepForward_fields(5)[of "run (play (setSpeed s (createPlayback ss)))"] p by simp
  have i0: "index pb0 = int 0" "0 + length ss \<le> length (stepList pb0)"
    and f0: "fired pb0 = []" "stepList pb0 = ss"
    by (simp_all add: pb0_def createPlayback_def setSpeed_def)
  note q = stepForward_iterate[OF i0]
  have b: "ss \<noteq> [] \<Longrightarrow> fired ((stepForward ^^ length ss) pb0) = map OnStep ss @ [OnComplete]"
    using q by (simp add: f0)
  have c: "ss \<noteq> [] \<Longrightarrow> fired (stepForward ((stepForward ^^ length ss) pb0)) = map OnStep ss @ [OnComplete, OnComplete]"
    using stepForward_fields(5)[of "(stepForward ^^ length ss) pb0"] q b
    by (simp add: f0)
  show ?thesis using p a b c by (simp add: pb0_def)
qed

theorem playback_replay_witness:
  "snd (insertNode Leaf 5) \<noteq> []
   \<and> fired ((stepForward ^^ length (snd (insertNode Leaf 5)))
        (setSpeed (2::int) (createPlayback (snd (insertNode Leaf 5)))))
       = map OnStep (snd (insertNode Leaf 5)) @ [OnComplete]
   \<and> fired (run (play (setSpeed (2::int) (createPlayback (snd (insertNode Leaf 5))))))
       = map OnStep (snd (insertNode Leaf 5)) @ [OnComplete]"
proof -
  have h: "snd (insertNode Leaf 5) \<noteq> []"
    by (simp add: insertNode_def Let_def)
  show ?thesis
    using playback_replay[of "2::int" "snd (insertNode Leaf 5)"] h by simp
qed

text \<open>
  C5 as stated fails: on a list of one step, the first \<^verbatim>\<open>stepForward()\<close> emits the
  step and fires completion, and the second, with the cursor already at the list
  length, fires completion again.
\<close>

theorem stepForward_refires_completion:
  "length (snd (insertNode Leaf 5)) = 1
   \<and> fired (stepForward (stepForward (createPlayback (snd (insertNode Leaf 5)) :: (TreeNode AnimationStep, int) Playback)))
      = [OnStep (snd (insertNode Leaf 5) ! 0), OnComplete, OnComplete]"
  by (simp add: insertNode_def Let_def stepForward_def stop_def createPlayback_def emitCurrent_def onComplete_def)


section \<open>The caller's tree is not mutated\<close>

lemma ext_refl [simp]: "ext h h"
  by (simp add: ext_def)

lemma ext_trans: "ext h1 h2 \<Longrightarrow> ext h2 h3 \<Longrightarrow> ext h1 h3"
  by (auto simp: ext_def)

lemma ext_append [simp]: "ext h (h @ xs)"
  by (simp add: ext_def nth_append)

lemma ext_take: "ext h h' \<longleftrightarrow> length h \<le> length h' \<and> take (length h) h' = h"
  by (auto simp: ext_def list_eq_iff_nth_eq)

lemma tree_at_NodeI:
  "a < length h \<Longrightarrow> value_of (h ! a) = v \<Longrightarrow> tree_at h (left_of (h ! a)) l Al
   \<Longrightarrow> tree_at h (right_of (h ! a)) r Ar \<Longrightarrow> a \<notin> Al \<Longrightarrow> a \<notin> Ar \<Longrightarrow> Al \<inter> Ar = {}
   \<Longrightarrow> tree_at h (Some a) \<langle>l, v, r\<rangle> (Set.insert a (Al \<union> Ar))"
  by auto

lemma tree_at_is_tree: "tree_at h p t A \<Longrightarrow> is_tree h p t"
  by (induction t arbitrary: p A) auto

lemma tree_at_bound: "tree_at h p t A \<Longrightarrow> a \<in> A \<Longrightarrow> a < length h"
  by (induction t arbitrary: p A) auto

lemma tree_at_frame:
  "tree_at h p t A \<Longrightarrow> length h \<le> length h' \<Longrightarrow> (\<forall>a \<in> A. h' ! a = h ! a) \<Longrightarrow> tree_at h' p t A"
proof (induction t arbitrary: p A)
  case Leaf
  then show ?case by simp
next
  case (Node l v r)
  from Node.prems(1) obtain a Al Ar where a: "p = Some a" "a < length h" "value_of (h ! a) = v"
    "tree_at h (left_of (h ! a)) l Al" "tree_at h (right_of (h ! a)) r Ar"
    "a \<notin> Al" "a \<notin> Ar" "Al \<inter> Ar = {}" "A = Set.insert a (Al \<union> Ar)"
    by auto
  have eq: "h' ! a = h ! a" using Node.prems(3) a(9) by simp
  have l: "tree_at h' (left_of (h ! a)) l Al"
    using Node.IH(1)[OF a(4) Node.prems(2)] Node.prems(3) a(9) by simp
  have r: "tree_at h' (right_of (h ! a)) r Ar"
    using Node.IH(2)[OF a(5) Node.prems(2)] Node.prems(3) a(9) by simp
  show ?case using a l r eq Node.prems(2) by auto
qed

lemma is_tree_ext: "is_tree h p t \<Longrightarrow> ext h h' \<Longrightarrow> is_tree h' p t"
proof (induction t arbitrary: p)
  case Leaf
  then show ?case by (cases p) auto
next
  case (Node l v r)
  then obtain a where a: "p = Some a" by (cases p) auto
  with Node.prems have "a < length h" "h' ! a = h ! a" "a < length h'" by (auto simp: ext_def)
  then show ?case using Node a by auto
qed

lemma tree_at_ext: "tree_at h p t A \<Longrightarrow> ext h h' \<Longrightarrow> tree_at h' p t A"
  by (rule tree_at_frame) (auto simp: ext_def dest: tree_at_bound)

lemma tree_at_NodeD:
  "tree_at h p \<langle>l, v, r\<rangle> A \<Longrightarrow>
   \<exists>a Al Ar. p = Some a \<and> a < length h \<and> value_of (h ! a) = v
        \<and> tree_at h (left_of (h ! a)) l Al \<and> tree_at h (right_of (h ! a)) r Ar
        \<and> a \<notin> Al \<and> a \<notin> Ar \<and> Al \<inter> Ar = {} \<and> A = Set.insert a (Al \<union> Ar)"
  by simp

declare tree_at.simps(2) [simp del]

lemma cloneTree_s_correct:
  "is_tree h p t \<Longrightarrow>
   \<exists>p' h' A. cloneTree_s p h = Some (p', h') \<and> ext h h' \<and> tree_at h' p' t A \<and> (\<forall>a \<in> A. length h \<le> a)"
proof (induction t arbitrary: p h)
  case Leaf
  then have "p = None" by (cases p) auto
  then show ?case by (subst cloneTree_s.simps) simp
next
  case (Node l v r)
  then obtain a where a: "p = Some a" "a < length h" "value_of (h ! a) = v"
    "is_tree h (left_of (h ! a)) l" "is_tree h (right_of (h ! a)) r"
    by (cases p) auto
  from Node.IH(1)[OF a(4)] obtain l' h1 Al where l: "cloneTree_s (left_of (h ! a)) h = Some (l', h1)"
    "ext h h1" "tree_at h1 l' l Al" "\<forall>a \<in> Al. length h \<le> a" by blast
  have eq1: "h1 ! a = h ! a" using l(2) a(2) by (simp add: ext_def)
  have "is_tree h1 (right_of (h1 ! a)) r" using is_tree_ext[OF a(5) l(2)] eq1 by simp
  from Node.IH(2)[OF this] obtain r' h2 Ar where r: "cloneTree_s (right_of (h1 ! a)) h1 = Some (r', h2)"
    "ext h1 h2" "tree_at h2 r' r Ar" "\<forall>a \<in> Ar. length h1 \<le> a" by blast
  define obj where "obj = \<lparr>value_of = value_of (h ! a), left_of = l', right_of = r'\<rparr>"
  define h3 where "h3 = h2 @ [obj]"
  have c: "cloneTree_s p h = Some (Some (length h2), h3)"
    by (subst cloneTree_s.simps) (simp add: a l r h3_def obj_def)
  have e: "ext h h3" unfolding h3_def by (intro ext_trans[OF l(2)] ext_trans[OF r(2)] ext_append)
  have tl: "tree_at h3 l' l Al"
    unfolding h3_def by (intro tree_at_ext[OF l(3)] ext_trans[OF r(2)] ext_append)
  have tr: "tree_at h3 r' r Ar"
    unfolding h3_def by (intro tree_at_ext[OF r(3)] ext_append)
  have bl: "\<And>x. x \<in> Al \<Longrightarrow> x < length h1" using tree_at_bound[OF l(3)] by simp
  have br: "\<And>x. x \<in> Ar \<Longrightarrow> x < length h2" using tree_at_bound[OF r(3)] by simp
  have len: "length h \<le> length h1" "length h1 \<le> length h2"
    using l(2) r(2) by (simp_all add: ext_def)
  have disj: "Al \<inter> Ar = {}" using bl r(4) by fastforce
  have nl: "length h2 \<notin> Al" "length h2 \<notin> Ar" using bl br len by fastforce+
  have "tree_at h3 (Some (length h2)) \<langle>l, v, r\<rangle> (Set.insert (length h2) (Al \<union> Ar))"
    using tl tr disj nl a(3) by (intro tree_at_NodeI) (simp_all add: h3_def obj_def)
  moreover have "\<forall>x \<in> Set.insert (length h2) (Al \<union> Ar). length h \<le> x"
    using l(4) r(4) len by auto
  ultimately show ?case using c e by blast
qed


lemma insert_insertPlain: "fst (insert root v t parent st) = insertPlain t v"
  by (induction t arbitrary: parent st) (auto simp: Let_def case_prod_beta)

lemma remove_remove_tree: "fst (remove ctx v t parent st) = remove_tree v t"
  by (induction t arbitrary: ctx parent st) (auto simp: Let_def case_prod_beta)

lemma ok_Some [simp]: "ok Q (Some x) = Q x"
  by (simp add: ok_def)

lemma ok_None [simp]: "\<not> ok Q None"
  by (simp add: ok_def)

lemma ok_bind: "ok (\<lambda>x. ok Q (f x)) m \<Longrightarrow> ok Q (Option.bind m f)"
  by (cases m) (auto simp: ok_def)

lemma ok_map_option: "ok (\<lambda>x. Q (g x)) m \<Longrightarrow> ok Q (map_option g m)"
  by (cases m) (auto simp: ok_def)

lemma ok_weaken: "ok P m \<Longrightarrow> (\<And>x. P x \<Longrightarrow> Q x) \<Longrightarrow> ok Q m"
  by (cases m) (auto simp: ok_def)

lemma ok_cloneTree_s:
  "cloneable h p \<Longrightarrow> (\<And>p' h'. ext h h' \<Longrightarrow> Q (p', h')) \<Longrightarrow> ok Q (cloneTree_s p h)"
  unfolding cloneable_def using cloneTree_s_correct by fastforce

lemma ok_pushStep_trav:
  "cloneable h p \<Longrightarrow> (\<And>st' h'. ext h h' \<Longrightarrow> Q (st', h'))
   \<Longrightarrow> ok Q (pushStep (makeTraversalStep_s p d n ty ns es c h) st)"
  unfolding pushStep_def makeTraversalStep_s_def
  by (intro ok_map_option ok_bind ok_cloneTree_s) auto

lemma ok_pushStep_make:
  "cloneable h p \<Longrightarrow> (\<And>st' h'. ext h h' \<Longrightarrow> Q (st', h'))
   \<Longrightarrow> ok Q (pushStep (makeStep_s p d ns es c an h) st)"
  unfolding pushStep_def makeStep_s_def
  by (intro ok_map_option ok_bind ok_cloneTree_s) auto

lemma ext_nth: "ext h h' \<Longrightarrow> a < length h \<Longrightarrow> h' ! a = h ! a"
  by (simp add: ext_def)

lemma ext_length: "ext h h' \<Longrightarrow> length h \<le> length h'"
  by (simp add: ext_def)

lemma cloneable_ext: "cloneable h p \<Longrightarrow> ext h h' \<Longrightarrow> cloneable h' p"
  unfolding cloneable_def using is_tree_ext by blast

lemma ext_frame: "ext h h' \<Longrightarrow> frame h A h'"
  by (simp add: ext_def frame_def)

lemma frame_trans:
  "frame h A h1 \<Longrightarrow> frame h1 B h2 \<Longrightarrow> B \<subseteq> A \<union> {length h..} \<Longrightarrow> frame h A h2"
  unfolding frame_def by (auto simp: subset_iff) (metis linorder_not_less order_less_le_trans)

lemma tree_at_frame':
  "tree_at h p t B \<Longrightarrow> frame h A h' \<Longrightarrow> A \<inter> B = {} \<Longrightarrow> tree_at h' p t B"
  by (rule tree_at_frame) (auto simp: frame_def dest: tree_at_bound)


lemma ok_map_option_eq [simp]: "ok Q (map_option g m) = ok (\<lambda>x. Q (g x)) m"
  by (cases m) (auto simp: ok_def)

lemma tree_at_None_iff: "tree_at h p t A \<Longrightarrow> (p = None) = (t = Leaf)"
  by (cases t) (auto dest: tree_at_NodeD)

lemma update_left:
  assumes a: "a < length h" "tree_at h (left_of (h ! a)) l Al" "tree_at h (right_of (h ! a)) r Ar"
      "a \<notin> Al" "a \<notin> Ar" "Al \<inter> Ar = {}" "A = Set.insert a (Al \<union> Ar)"
    and h2: "frame h {a} h2" "left_of (h2 ! a) = left_of (h ! a)" "right_of (h2 ! a) = right_of (h ! a)"
      "value_of (h2 ! a) = nv'"
    and p: "post h2 Al lt' (l', st, h3)"
  shows "post h A \<langle>lt', nv', r\<rangle> (Some a, st', h3[a := (h3 ! a)\<lparr>left_of := l'\<rparr>])"
proof -
  from p obtain A' where A': "tree_at h3 l' lt' A'" "A' \<subseteq> Al \<union> {length h2..<length h3}" "frame h2 Al h3"
    by (auto simp: post_def)
  define h4 where "h4 = h3[a := (h3 ! a)\<lparr>left_of := l'\<rparr>]"
  have len: "length h \<le> length h2" "length h2 \<le> length h3" "length h4 = length h3"
    using h2(1) A'(3) by (simp_all add: frame_def h4_def)
  have bl: "\<And>x. x \<in> Al \<Longrightarrow> x < length h" and br: "\<And>x. x \<in> Ar \<Longrightarrow> x < length h"
    using tree_at_bound[OF a(2)] tree_at_bound[OF a(3)] by auto
  have e3: "h3 ! a = h2 ! a" using A'(3) a(1,4) len by (simp add: frame_def)
  have e4: "h4 ! a = (h2 ! a)\<lparr>left_of := l'\<rparr>" "\<And>x. x \<noteq> a \<Longrightarrow> h4 ! x = h3 ! x"
    using a(1) len e3 by (simp_all add: h4_def)
  have naA': "a \<notin> A'" using A'(2) a(1,4) len by auto
  have k: "\<forall>x \<in> S. h4 ! x = h3 ! x" if "a \<notin> S" for S
  proof
    fix x assume "x \<in> S"
    with that have "x \<noteq> a" by auto
    then show "h4 ! x = h3 ! x" by (rule e4(2))
  qed
  have t_r2: "tree_at h2 (right_of (h ! a)) r Ar"
    by (rule tree_at_frame'[OF a(3) h2(1)]) (use a(5) in simp)
  have t_r3: "tree_at h3 (right_of (h ! a)) r Ar"
    by (rule tree_at_frame'[OF t_r2 A'(3)]) (use a(6) in simp)
  have t_r4: "tree_at h4 (right_of (h ! a)) r Ar"
    by (rule tree_at_frame[OF t_r3]) (use k[OF a(5)] len in simp_all)
  have t_l4: "tree_at h4 l' lt' A'"
    by (rule tree_at_frame[OF A'(1)]) (use k[OF naA'] len in simp_all)
  have disj: "A' \<inter> Ar = {}" using A'(2) a(6) br len by fastforce
  have "tree_at h4 (Some a) \<langle>lt', nv', r\<rangle> (Set.insert a (A' \<union> Ar))"
    by (rule tree_at_NodeI) (use a(1) len e4(1) h2 t_l4 t_r4 naA' a(5) disj in simp_all)
  moreover have "Set.insert a (A' \<union> Ar) \<subseteq> A \<union> {length h..<length h4}"
    using A'(2) a(7) len by auto
  moreover have "frame h A h4"
    unfolding frame_def
  proof (intro conjI allI impI)
    show "length h \<le> length h4" using len by simp
    fix b assume b: "b < length h" "b \<notin> A"
    then have "b \<noteq> a" "b \<notin> Al" using a(7) by auto
    then show "h4 ! b = h ! b"
      using e4(2)[of b] A'(3) h2(1) b len by (simp add: frame_def)
  qed
  ultimately have "\<exists>A''. tree_at h4 (Some a) \<langle>lt', nv', r\<rangle> A'' \<and> A'' \<subseteq> A \<union> {length h..<length h4} \<and> frame h A h4"
    by blast
  then show ?thesis by (simp add: post_def h4_def)
qed

lemma update_right:
  assumes a: "a < length h" "tree_at h (left_of (h ! a)) l Al" "tree_at h (right_of (h ! a)) r Ar"
      "a \<notin> Al" "a \<notin> Ar" "Al \<inter> Ar = {}" "A = Set.insert a (Al \<union> Ar)"
    and h2: "frame h {a} h2" "left_of (h2 ! a) = left_of (h ! a)" "right_of (h2 ! a) = right_of (h ! a)"
      "value_of (h2 ! a) = nv'"
    and p: "post h2 Ar rt' (r', st, h3)"
  shows "post h A \<langle>l, nv', rt'\<rangle> (Some a, st', h3[a := (h3 ! a)\<lparr>right_of := r'\<rparr>])"
proof -
  from p obtain A' where A': "tree_at h3 r' rt' A'" "A' \<subseteq> Ar \<union> {length h2..<length h3}" "frame h2 Ar h3"
    by (auto simp: post_def)
  define h4 where "h4 = h3[a := (h3 ! a)\<lparr>right_of := r'\<rparr>]"
  have len: "length h \<le> length h2" "length h2 \<le> length h3" "length h4 = length h3"
    using h2(1) A'(3) by (simp_all add: frame_def h4_def)
  have bl: "\<And>x. x \<in> Al \<Longrightarrow> x < length h" and br: "\<And>x. x \<in> Ar \<Longrightarrow> x < length h"
    using tree_at_bound[OF a(2)] tree_at_bound[OF a(3)] by auto
  have e3: "h3 ! a = h2 ! a" using A'(3) a(1,5) len by (simp add: frame_def)
  have e4: "h4 ! a = (h2 ! a)\<lparr>right_of := r'\<rparr>" "\<And>x. x \<noteq> a \<Longrightarrow> h4 ! x = h3 ! x"
    using a(1) len e3 by (simp_all add: h4_def)
  have naA': "a \<notin> A'" using A'(2) a(1,5) len by auto
  have k: "\<forall>x \<in> S. h4 ! x = h3 ! x" if "a \<notin> S" for S
  proof
    fix x assume "x \<in> S"
    with that have "x \<noteq> a" by auto
    then show "h4 ! x = h3 ! x" by (rule e4(2))
  qed
  have t_l2: "tree_at h2 (left_of (h ! a)) l Al"
    by (rule tree_at_frame'[OF a(2) h2(1)]) (use a(4) in simp)
  have t_l3: "tree_at h3 (left_of (h ! a)) l Al"
    by (rule tree_at_frame'[OF t_l2 A'(3)]) (use a(6) in auto)
  have t_l4: "tree_at h4 (left_of (h ! a)) l Al"
    by (rule tree_at_frame[OF t_l3]) (use k[OF a(4)] len in simp_all)
  have t_r4: "tree_at h4 r' rt' A'"
    by (rule tree_at_frame[OF A'(1)]) (use k[OF naA'] len in simp_all)
  have disj: "Al \<inter> A' = {}" using A'(2) a(6) bl len by fastforce
  have "tree_at h4 (Some a) \<langle>l, nv', rt'\<rangle> (Set.insert a (Al \<union> A'))"
    by (rule tree_at_NodeI) (use a(1) len e4(1) h2 t_l4 t_r4 naA' a(4) disj in simp_all)
  moreover have "Set.insert a (Al \<union> A') \<subseteq> A \<union> {length h..<length h4}"
    using A'(2) a(7) len by auto
  moreover have "frame h A h4"
    unfolding frame_def
  proof (intro conjI allI impI)
    show "length h \<le> length h4" using len by simp
    fix b assume b: "b < length h" "b \<notin> A"
    then have "b \<noteq> a" "b \<notin> Ar" using a(7) by auto
    then show "h4 ! b = h ! b"
      using e4(2)[of b] A'(3) h2(1) b len by (simp add: frame_def)
  qed
  ultimately have "\<exists>A''. tree_at h4 (Some a) \<langle>l, nv', rt'\<rangle> A'' \<and> A'' \<subseteq> A \<union> {length h..<length h4} \<and> frame h A h4"
    by blast
  then show ?thesis by (simp add: post_def h4_def)
qed


lemma insert_s_correct:
  "cloneable h root \<Longrightarrow> tree_at h node t A \<Longrightarrow>
   ok (\<lambda>(a, st', h'). post h A (insertPlain t v) (Some a, st', h')) (insert_s root v node parent st h)"
proof (induction t arbitrary: node parent st h A)
  case Leaf
  then have n: "node = None" "A = {}" by simp_all
  have "tree_at (h @ [\<lparr>value_of = v, left_of = None, right_of = None\<rparr>]) (Some (length h)) \<langle>Leaf, v, Leaf\<rangle>
      (Set.insert (length h) ({} \<union> {}))"
    by (rule tree_at_NodeI) simp_all
  then show ?case
    by (subst insert_s.simps) (auto simp: n post_def frame_def nth_append)
next
  case (Node l nv r)
  from tree_at_NodeD[OF Node.prems(2)] obtain a Al Ar where a: "node = Some a" "a < length h"
    "value_of (h ! a) = nv" "tree_at h (left_of (h ! a)) l Al" "tree_at h (right_of (h ! a)) r Ar"
    "a \<notin> Al" "a \<notin> Ar" "Al \<inter> Ar = {}" "A = Set.insert a (Al \<union> Ar)"
    by blast
  note cl = Node.prems(1)
  have fr: "frame h {a} h2" "left_of (h2 ! a) = left_of (h ! a)" "right_of (h2 ! a) = right_of (h ! a)"
    "value_of (h2 ! a) = nv" "cloneable h2 root"
    "tree_at h2 (left_of (h ! a)) l Al" "tree_at h2 (right_of (h ! a)) r Ar"
    if "ext h h1" "ext h1 h2" for h1 h2
    using ext_trans[OF that] a cl
    by (auto simp: ext_nth intro: ext_frame cloneable_ext tree_at_ext)
  consider (lt) "v < nv" | (gt) "v > nv" | (eq) "v = nv" by linarith
  then show ?case
  proof cases
    case lt
    have ip: "insertPlain \<langle>l, nv, r\<rangle> v = \<langle>insertPlain l v, nv, r\<rangle>" using lt by simp
    show ?thesis
      unfolding ip
      apply (subst insert_s.simps)
      apply (simp add: a Let_def)
      apply (rule ok_bind)
      apply (rule ok_pushStep_trav[OF cl])
      subgoal premises p1 for st1 h1
        apply (simp add: ext_nth[OF p1] a lt)
        apply (rule ok_bind)
        apply (rule ok_pushStep_trav[OF cloneable_ext[OF cl p1]])
        subgoal premises p2 for st2 h2
          apply (simp add: fr[OF p1 p2])
          apply (rule ok_bind)
          apply (rule ok_weaken)
           apply (rule Node.IH(1)[OF fr(5,6)[OF p1 p2]])
          apply (clarsimp)
          apply (rule update_left[OF a(2,4,5,6,7,8) refl fr(1,2,3,4)[OF p1 p2]])
          apply assumption
          done
        done
      done
  next
    case gt
    have ip: "insertPlain \<langle>l, nv, r\<rangle> v = \<langle>l, nv, insertPlain r v\<rangle>" using gt by simp
    have nlt: "\<not> v < nv" using gt by simp
    show ?thesis
      unfolding ip
      apply (subst insert_s.simps)
      apply (simp add: a Let_def)
      apply (rule ok_bind)
      apply (rule ok_pushStep_trav[OF cl])
      subgoal premises p1 for st1 h1
        apply (simp add: ext_nth[OF p1] a gt nlt)
        apply (rule ok_bind)
        apply (rule ok_pushStep_trav[OF cloneable_ext[OF cl p1]])
        subgoal premises p2 for st2 h2
          apply (simp add: fr[OF p1 p2])
          apply (rule ok_bind)
          apply (rule ok_weaken)
           apply (rule Node.IH(2)[OF fr(5,7)[OF p1 p2]])
          apply (clarsimp)
          apply (rule update_right[OF a(2,4,5,6,7,8) refl fr(1,2,3,4)[OF p1 p2]])
          apply assumption
          done
        done
      done
  next
    case eq
    have ip: "insertPlain \<langle>l, nv, r\<rangle> v = \<langle>l, nv, r\<rangle>" using eq by simp
    show ?thesis
      unfolding ip
      apply (subst insert_s.simps)
      apply (simp add: a Let_def)
      apply (rule ok_bind)
      apply (rule ok_pushStep_trav[OF cl])
      subgoal premises p1 for st1 h1
        using tree_at_ext[OF Node.prems(2) p1] ext_frame[OF p1, of A] ext_length[OF p1]
        by (auto simp: ext_nth[OF p1] a eq post_def)
      done
  qed
qed


lemma findMin_s_correct:
  "tree_at h (Some ra) r Ar \<Longrightarrow>
   ok (\<lambda>m. m < length h \<and> value_of (h ! m) = tree.value (findMin r)) (findMin_s ra h)"
proof (induction r arbitrary: ra Ar)
  case Leaf
  then show ?case by simp
next
  case (Node l v rr)
  from tree_at_NodeD[OF Node.prems] obtain Al where a: "ra < length h" "value_of (h ! ra) = v"
    "tree_at h (left_of (h ! ra)) l Al"
    by blast
  show ?case
  proof (cases "left_of (h ! ra)")
    case None
    then have "l = Leaf" using tree_at_None_iff[OF a(3)] by simp
    then show ?thesis using a None by (subst findMin_s.simps) simp
  next
    case (Some la)
    then have "l \<noteq> Leaf" using tree_at_None_iff[OF a(3)] by simp
    then show ?thesis
      using Node.IH(1)[of la Al] a Some by (subst findMin_s.simps) simp
  qed
qed

lemma is_tree_value_update:
  "is_tree h p t \<Longrightarrow> \<exists>t'. is_tree (h[a := (h ! a)\<lparr>value_of := x\<rparr>]) p t'"
proof (induction t arbitrary: p)
  case Leaf
  then have "p = None" by (cases p) auto
  then have "is_tree (h[a := (h ! a)\<lparr>value_of := x\<rparr>]) p Leaf" by simp
  then show ?case by blast
next
  case (Node l v r)
  define h' where "h' = h[a := (h ! a)\<lparr>value_of := x\<rparr>]"
  from Node.prems obtain b where b: "p = Some b" "b < length h"
    "is_tree h (left_of (h ! b)) l" "is_tree h (right_of (h ! b)) r"
    by (cases p) auto
  have f: "left_of (h' ! b) = left_of (h ! b)" "right_of (h' ! b) = right_of (h ! b)" "b < length h'"
    using b(2) by (cases "a < length h"; simp add: h'_def nth_list_update)+
  from Node.IH(1)[OF b(3)] Node.IH(2)[OF b(4)] obtain l' r' where
    "is_tree h' (left_of (h ! b)) l'" "is_tree h' (right_of (h ! b)) r'"
    unfolding h'_def by blast
  then have "is_tree h' p \<langle>l', value_of (h' ! b), r'\<rangle>" using b(1) f by simp
  then show ?case unfolding h'_def by blast
qed

lemma cloneable_value_update:
  "cloneable h p \<Longrightarrow> cloneable (h[a := (h ! a)\<lparr>value_of := x\<rparr>]) p"
  unfolding cloneable_def using is_tree_value_update by blast

lemma value_update_facts:
  assumes "ext h h3" "a < length h"
  shows "frame h {a} (h3[a := (h3 ! a)\<lparr>value_of := x\<rparr>])"
    "left_of (h3[a := (h3 ! a)\<lparr>value_of := x\<rparr>] ! a) = left_of (h ! a)"
    "right_of (h3[a := (h3 ! a)\<lparr>value_of := x\<rparr>] ! a) = right_of (h ! a)"
    "value_of (h3[a := (h3 ! a)\<lparr>value_of := x\<rparr>] ! a) = x"
  using assms by (auto simp: ext_def frame_def)

lemma remove_s_correct:
  "cloneable h root \<Longrightarrow> tree_at h node t A \<Longrightarrow>
   ok (post h A (remove_tree v t)) (remove_s root v node parent st h)"
proof (induction t arbitrary: node parent st h A)
  case Leaf
  then have n: "node = None" "A = {}" by simp_all
  show ?case
    apply (subst remove_s.simps)
    apply (simp add: n)
    apply (rule ok_pushStep_make[OF Leaf.prems(1)])
    apply (simp add: post_def ext_frame)
    done
next
  case (Node l nv r)
  from tree_at_NodeD[OF Node.prems(2)] obtain a Al Ar where a: "node = Some a" "a < length h"
    "value_of (h ! a) = nv" "tree_at h (left_of (h ! a)) l Al" "tree_at h (right_of (h ! a)) r Ar"
    "a \<notin> Al" "a \<notin> Ar" "Al \<inter> Ar = {}" "A = Set.insert a (Al \<union> Ar)"
    by blast
  note cl = Node.prems(1)
  have fr: "frame h {a} h2" "left_of (h2 ! a) = left_of (h ! a)" "right_of (h2 ! a) = right_of (h ! a)"
    "value_of (h2 ! a) = nv" "cloneable h2 root"
    "tree_at h2 (left_of (h ! a)) l Al" "tree_at h2 (right_of (h ! a)) r Ar"
    if "ext h h1" "ext h1 h2" for h1 h2
    using ext_trans[OF that] a cl
    by (auto simp: ext_nth intro: ext_frame cloneable_ext tree_at_ext)
  consider (lt) "v < nv" | (gt) "v > nv" | (eq) "v = nv" by linarith
  then show ?case
  proof cases
    case lt
    have ip: "remove_tree v \<langle>l, nv, r\<rangle> = \<langle>remove_tree v l, nv, r\<rangle>" using lt by simp
    show ?thesis
      unfolding ip
      apply (subst remove_s.simps)
      apply (simp add: a Let_def)
      apply (rule ok_bind)
      apply (rule ok_pushStep_trav[OF cl])
      subgoal premises p1 for st1 h1
        apply (simp add: ext_nth[OF p1] a lt)
        apply (rule ok_bind)
        apply (rule ok_pushStep_trav[OF cloneable_ext[OF cl p1]])
        subgoal premises p2 for st2 h2
          apply (simp add: fr[OF p1 p2])
          apply (rule ok_bind)
          apply (rule ok_weaken)
           apply (rule Node.IH(1)[OF fr(5,6)[OF p1 p2]])
          apply (clarsimp)
          apply (rule update_left[OF a(2,4,5,6,7,8) refl fr(1,2,3,4)[OF p1 p2]])
          apply assumption
          done
        done
      done
  next
    case gt
    have ip: "remove_tree v \<langle>l, nv, r\<rangle> = \<langle>l, nv, remove_tree v r\<rangle>" using gt by simp
    have nlt: "\<not> v < nv" using gt by simp
    show ?thesis
      unfolding ip
      apply (subst remove_s.simps)
      apply (simp add: a Let_def)
      apply (rule ok_bind)
      apply (rule ok_pushStep_trav[OF cl])
      subgoal premises p1 for st1 h1
        apply (simp add: ext_nth[OF p1] a gt nlt)
        apply (rule ok_bind)
        apply (rule ok_pushStep_trav[OF cloneable_ext[OF cl p1]])
        subgoal premises p2 for st2 h2
          apply (simp add: fr[OF p1 p2])
          apply (rule ok_bind)
          apply (rule ok_weaken)
           apply (rule Node.IH(2)[OF fr(5,7)[OF p1 p2]])
          apply (clarsimp)
          apply (rule update_right[OF a(2,4,5,6,7,8) refl fr(1,2,3,4)[OF p1 p2]])
          apply assumption
          done
        done
      done
  next
    case eq
    note pl = tree_at_None_iff[OF a(4)] and pr = tree_at_None_iff[OF a(5)]
    have ne: "\<not> v < nv" "\<not> nv < v" using eq by simp_all
    show ?thesis
    proof (cases "left_of (h ! a)")
      case None
      then have l: "l = Leaf" using pl by simp
      show ?thesis
      proof (cases "right_of (h ! a)")
        case None
        then have r: "r = Leaf" using pr by simp
        have ip: "remove_tree v \<langle>l, nv, r\<rangle> = Leaf" using eq l r by simp
        show ?thesis
          unfolding ip
          apply (subst remove_s.simps)
          apply (simp add: a Let_def)
          apply (rule ok_bind)
          apply (rule ok_pushStep_trav[OF cl])
          subgoal premises p1 for st1 h1
            apply (simp add: ext_nth[OF p1] a ne)
            apply (rule ok_bind)
            apply (rule ok_pushStep_trav[OF cloneable_ext[OF cl p1]])
            subgoal premises p2 for st2 h2
              apply (simp add: fr[OF p1 p2] None \<open>left_of (h ! a) = None\<close>)
              apply (rule ok_pushStep_trav[OF fr(5)[OF p1 p2]])
              subgoal premises p3 for st3 h3
                by (simp add: post_def ext_frame[OF ext_trans[OF ext_trans[OF p1 p2] p3]])
              done
            done
          done
      next
        case (Some ra)
        then have r: "r \<noteq> Leaf" using pr by simp
        have ip: "remove_tree v \<langle>l, nv, r\<rangle> = r" using eq l r by simp
        show ?thesis
          unfolding ip
          apply (subst remove_s.simps)
          apply (simp add: a Let_def)
          apply (rule ok_bind)
          apply (rule ok_pushStep_trav[OF cl])
          subgoal premises p1 for st1 h1
            apply (simp add: ext_nth[OF p1] a ne)
            apply (rule ok_bind)
            apply (rule ok_pushStep_trav[OF cloneable_ext[OF cl p1]])
            subgoal premises p2 for st2 h2
              apply (simp add: fr[OF p1 p2] Some \<open>left_of (h ! a) = None\<close>)
              apply (rule ok_pushStep_trav[OF fr(5)[OF p1 p2]])
              subgoal premises p3 for st3 h3
                using fr(3,7)[OF ext_trans[OF p1 p2] p3]
                by (auto simp: post_def Some ext_frame[OF ext_trans[OF ext_trans[OF p1 p2] p3]])
              done
            done
          done
      qed
    next
      case (Some la)
      then have l: "l \<noteq> Leaf" using pl by simp
      show ?thesis
      proof (cases "right_of (h ! a)")
        case None
        then have r: "r = Leaf" using pr by simp
        have ip: "remove_tree v \<langle>l, nv, r\<rangle> = l" using eq l r by simp
        show ?thesis
          unfolding ip
          apply (subst remove_s.simps)
          apply (simp add: a Let_def)
          apply (rule ok_bind)
          apply (rule ok_pushStep_trav[OF cl])
          subgoal premises p1 for st1 h1
            apply (simp add: ext_nth[OF p1] a ne)
            apply (rule ok_bind)
            apply (rule ok_pushStep_trav[OF cloneable_ext[OF cl p1]])
            subgoal premises p2 for st2 h2
              apply (simp add: fr[OF p1 p2] Some None)
              apply (rule ok_pushStep_trav[OF fr(5)[OF p1 p2]])
              subgoal premises p3 for st3 h3
                using fr(2,6)[OF ext_trans[OF p1 p2] p3]
                by (auto simp: post_def Some ext_frame[OF ext_trans[OF ext_trans[OF p1 p2] p3]])
              done
            done
          done
      next
        case Some': (Some ra)
        then have r: "r \<noteq> Leaf" using pr by simp
        define sv where "sv = tree.value (findMin r)"
        have ip: "remove_tree v \<langle>l, nv, r\<rangle> = \<langle>l, sv, remove_tree v r\<rangle>"
          using eq l r by (simp add: sv_def)
        have tra: "tree_at h2 (Some ra) r Ar" if "ext h h2" for h2
          using tree_at_ext[OF a(5) that] Some' by simp
        show ?thesis
          unfolding ip
          apply (subst remove_s.simps)
          apply (simp add: a Let_def)
          apply (rule ok_bind)
          apply (rule ok_pushStep_trav[OF cl])
          subgoal premises p1 for st1 h1
            apply (simp add: ext_nth[OF p1] a ne)
            apply (rule ok_bind)
            apply (rule ok_pushStep_trav[OF cloneable_ext[OF cl p1]])
            subgoal premises p2 for st2 h2
              apply (simp add: fr[OF p1 p2] Some Some')
              apply (rule ok_bind)
              apply (rule ok_weaken)
               apply (rule findMin_s_correct[OF tra[OF ext_trans[OF p1 p2]]])
              apply (simp add: sv_def[symmetric])
              apply (rule ok_bind)
              apply (rule ok_pushStep_make[OF fr(5)[OF p1 p2]])
              subgoal premises p3 for m st3 h3
                apply simp
                apply (rule ok_bind)
                apply (rule ok_pushStep_make[OF cloneable_ext[OF fr(5)[OF p1 p2] p3(2)]])
                subgoal premises p4 for st4 h4
                proof -
                  define h5 where "h5 = h4[a := (h4 ! a)\<lparr>value_of := sv\<rparr>]"
                  have e4: "ext h h4" "ext h2 h4"
                    using ext_trans[OF p3(2) p4] ext_trans[OF ext_trans[OF p1 p2] ext_trans[OF p3(2) p4]]
                    by simp_all
                  have m: "value_of (h4 ! m) = sv" using p3(1) ext_nth[OF e4(2), of m] by simp
                  note vf = value_update_facts[OF e4(1) a(2), of sv, folded h5_def]
                  have c5: "cloneable h5 root"
                    unfolding h5_def by (rule cloneable_value_update[OF cloneable_ext[OF cl e4(1)]])
                  have t5: "tree_at h5 (Some ra) r Ar"
                    using tree_at_frame'[OF a(5) vf(1)] a(7) Some' by simp
                  show ?thesis
                    apply (simp add: Let_def m)
                    apply (fold h5_def)
                    apply (simp add: vf Some')
                    apply (rule ok_bind)
                    apply (rule ok_weaken)
                     apply (rule Node.IH(2)[OF c5 t5])
                    apply clarsimp
                    apply (rule update_right[OF a(2,4,5,6,7,8) refl vf])
                    apply assumption
                    done
                qed
                done
              done
            done
          done
      qed
    qed
  qed
qed


lemma ok_iff: "ok Q m = (\<exists>x. m = Some x \<and> Q x)"
  by (cases m) (auto simp: ok_def)

lemma ok_cloneTree_s_tree:
  "is_tree h p t \<Longrightarrow>
   ok (\<lambda>(p', h'). ext h h' \<and> (\<exists>A. tree_at h' p' t A \<and> (\<forall>a \<in> A. length h \<le> a))) (cloneTree_s p h)"
  using cloneTree_s_correct[of h p t] by (auto simp: ok_iff)

lemma frame_fresh_ext:
  "ext h h1 \<Longrightarrow> frame h1 A h2 \<Longrightarrow> (\<forall>a \<in> A. length h \<le> a) \<Longrightarrow> ext h h2"
  unfolding ext_def frame_def by (metis leD order_less_le_trans order_trans)

lemma insertNode_root: "fst (insertNode t v) = insertPlain t v"
proof (cases t)
  case Leaf
  then show ?thesis by (simp add: insertNode_def Let_def)
next
  case (Node l nv r)
  then have "fst (insertNode t v) = fst (insert t v t None emptyRecorder)"
    by (simp add: insertNode_def Let_def case_prod_beta del: insert.simps)
  then show ?thesis by (simp only: insert_insertPlain)
qed

lemma removeNode_root: "fst (removeNode t v) = remove_tree v t"
  by (simp add: removeNode_def Let_def case_prod_beta remove_remove_tree)

lemma insertNode_s_correct:
  assumes "is_tree h root t"
  shows "ok (\<lambda>((res, ss), h'). ext h h' \<and> is_tree h' (Some res) (insertPlain t v)) (insertNode_s root v h)"
proof (cases root)
  case None
  then have t: "t = Leaf" using assms by (cases t) auto
  define h0 where "h0 = h @ [\<lparr>value_of = v, left_of = None, right_of = None\<rparr>]"
  have i0: "is_tree h0 (Some (length h)) \<langle>Leaf, v, Leaf\<rangle>" by (simp add: h0_def)
  then have c0: "cloneable h0 (Some (length h))" unfolding cloneable_def by blast
  have e0: "ext h h0" by (simp add: h0_def)
  show ?thesis
    unfolding insertNode_s_def makeStep_s_def
    apply (simp add: None Let_def t h0_def[symmetric])
    apply (rule ok_bind)
    apply (rule ok_cloneTree_s[OF c0])
    subgoal premises p for p' h'
      using ext_trans[OF e0 p] is_tree_ext[OF i0 p] by simp
    done
next
  case (Some a)
  then have t: "t \<noteq> Leaf" using assms by (cases t) auto
  show ?thesis
    unfolding insertNode_s_def
    apply (simp add: Some)
    apply (rule ok_bind)
    apply (rule ok_weaken)
     apply (rule ok_cloneTree_s_tree[OF assms[unfolded Some]])
    apply clarsimp
    subgoal premises p1 for p' h1 A
    proof -
      have c1: "cloneable h1 p'" using tree_at_is_tree[OF p1(2)] unfolding cloneable_def by blast
      show ?thesis
        apply (rule ok_bind)
        apply (rule ok_weaken)
         apply (rule insert_s_correct[OF c1 p1(2)])
        apply (clarsimp simp: post_def)
        subgoal premises p2 for res st h2 A'
        proof -
          have e2: "ext h h2" by (rule frame_fresh_ext[OF p1(1) p2(3) p1(3)])
          have i2: "is_tree h2 (Some res) (insertPlain t v)" by (rule tree_at_is_tree[OF p2(1)])
          then have c2: "cloneable h2 (Some res)" unfolding cloneable_def by blast
          show ?thesis
            apply (rule ok_pushStep_make[OF c2])
            subgoal premises p3 for st3 h3
              using ext_trans[OF e2 p3] is_tree_ext[OF i2 p3] by simp
            done
        qed
        done
    qed
    done
qed

lemma removeNode_s_correct:
  assumes "is_tree h root t"
  shows "ok (\<lambda>((res, ss), h'). ext h h' \<and> is_tree h' res (remove_tree v t)) (removeNode_s root v h)"
  unfolding removeNode_s_def
  apply (rule ok_bind)
  apply (rule ok_weaken)
   apply (rule ok_cloneTree_s_tree[OF assms])
  apply clarsimp
  subgoal premises p1 for p' h1 A
  proof -
    have c1: "cloneable h1 p'" using tree_at_is_tree[OF p1(2)] unfolding cloneable_def by blast
    show ?thesis
      apply (rule ok_bind)
      apply (rule ok_weaken)
       apply (rule remove_s_correct[OF c1 p1(2)])
      apply (clarsimp simp: post_def)
      subgoal premises p2 for res st h2 A'
      proof -
        have e2: "ext h h2" by (rule frame_fresh_ext[OF p1(1) p2(3) p1(3)])
        have i2: "is_tree h2 res (remove_tree v t)" by (rule tree_at_is_tree[OF p2(1)])
        then have c2: "cloneable h2 res" unfolding cloneable_def by blast
        show ?thesis
          apply (rule ok_pushStep_make[OF c2])
          subgoal premises p3 for st3 h3
            using ext_trans[OF e2 p3] is_tree_ext[OF i2 p3] by simp
          done
      qed
      done
  qed
  done

text \<open>
  C4. For every tree and integer \<open>v\<close>: if \<open>root\<close> points to a tree \<open>t\<close> in the store,
  then \<^verbatim>\<open>insertNode(root, v)\<close> and \<^verbatim>\<open>removeNode(root, v)\<close> return, and afterwards
  every object that was in the store before the call is unchanged (same value, same left
  and right links), so \<open>root\<close> still points to \<open>t\<close>; the change shows in the returned
  root only, which points to the tree that the functional model computes.
\<close>

theorem original_tree_unchanged:
  "is_tree h root t \<Longrightarrow>
   (\<exists>res ss h'. insertNode_s root v h = Some ((res, ss), h')
       \<and> length h \<le> length h' \<and> take (length h) h' = h
       \<and> is_tree h' root t \<and> is_tree h' (Some res) (fst (insertNode t v)))
   \<and> (\<exists>res ss h'. removeNode_s root v h = Some ((res, ss), h')
       \<and> length h \<le> length h' \<and> take (length h) h' = h
       \<and> is_tree h' root t \<and> is_tree h' res (fst (removeNode t v)))"
proof -
  assume t: "is_tree h root t"
  from insertNode_s_correct[OF t, of v] obtain res ss h' where
    i: "insertNode_s root v h = Some ((res, ss), h')" "ext h h'" "is_tree h' (Some res) (insertPlain t v)"
    unfolding ok_iff by fast
  from removeNode_s_correct[OF t, of v] obtain res2 ss2 h2 where
    r: "removeNode_s root v h = Some ((res2, ss2), h2)" "ext h h2" "is_tree h2 res2 (remove_tree v t)"
    unfolding ok_iff by fast
  have "length h \<le> length h' \<and> take (length h) h' = h \<and> is_tree h' root t"
    using i(2) is_tree_ext[OF t i(2)] by (simp add: ext_take)
  moreover have "length h \<le> length h2 \<and> take (length h) h2 = h \<and> is_tree h2 root t"
    using r(2) is_tree_ext[OF t r(2)] by (simp add: ext_take)
  ultimately show ?thesis
    using i(1,3) r(1,3) unfolding insertNode_root removeNode_root by blast
qed

theorem original_tree_unchanged_witness:
  "is_tree three_nodes_store (Some 2) three_nodes
   \<and> (\<exists>res ss h'. insertNode_s (Some 2) 4 three_nodes_store = Some ((res, ss), h')
       \<and> take (length three_nodes_store) h' = three_nodes_store
       \<and> is_tree h' (Some 2) three_nodes \<and> is_tree h' (Some res) (fst (insertNode three_nodes 4)))
   \<and> (\<exists>res ss h'. removeNode_s (Some 2) 2 three_nodes_store = Some ((res, ss), h')
       \<and> take (length three_nodes_store) h' = three_nodes_store
       \<and> is_tree h' (Some 2) three_nodes \<and> is_tree h' res (fst (removeNode three_nodes 2)))"
proof -
  have h: "is_tree three_nodes_store (Some 2) three_nodes"
    by (simp add: three_nodes_store_def three_nodes_def)
  from original_tree_unchanged[OF h, of 4]
  have i: "\<exists>res ss h'. insertNode_s (Some 2) 4 three_nodes_store = Some ((res, ss), h')
       \<and> take (length three_nodes_store) h' = three_nodes_store
       \<and> is_tree h' (Some 2) three_nodes \<and> is_tree h' (Some res) (fst (insertNode three_nodes 4))"
    by fast
  from original_tree_unchanged[OF h, of 2]
  have r: "\<exists>res ss h'. removeNode_s (Some 2) 2 three_nodes_store = Some ((res, ss), h')
       \<and> take (length three_nodes_store) h' = three_nodes_store
       \<and> is_tree h' (Some 2) three_nodes \<and> is_tree h' res (fst (removeNode three_nodes 2))"
    by fast
  from h i r show ?thesis by (intro conjI)
qed

section \<open>What insert, remove and predecessor do guarantee\<close>

text \<open>
  Supporting facts next to the defect of the two-children removal: \<^verbatim>\<open>insertNode\<close> keeps
  the search-tree invariant and adds exactly the value; \<^verbatim>\<open>removeNode\<close> on a search
  tree returns a tree without the value, and the same tree when the value was absent;
  \<^verbatim>\<open>findPredecessor\<close> returns the largest value below the query.
\<close>

lemma insertPlain_set: "set_tree (insertPlain t v) = Set.insert v (set_tree t)"
  by (induction t) auto

lemma insertPlain_bst: "bst t \<Longrightarrow> bst (insertPlain t v)"
  by (induction t) (auto simp: insertPlain_set)

lemma insertNode_bst:
  "bst t \<Longrightarrow> bst (fst (insertNode t v)) \<and> set_tree (fst (insertNode t v)) = Set.insert v (set_tree t)"
  by (simp add: insertNode_root insertPlain_bst insertPlain_set del: insertPlain.simps)

lemma remove_tree_absent: "bst t \<Longrightarrow> v \<notin> set_tree t \<Longrightarrow> remove_tree v t = t"
  by (induction t) auto

lemma remove_tree_subset: "set_tree (remove_tree v t) \<subseteq> set_tree t"
proof (induction t)
  case Leaf
  then show ?case by simp
next
  case (Node l nv r)
  have "tree.value (findMin r) \<in> set_tree r" if "r \<noteq> Leaf"
    using that by (induction r rule: findMin.induct) auto
  then show ?case using Node by auto
qed

lemma findMin_value_in: "r \<noteq> Leaf \<Longrightarrow> tree.value (findMin r) \<in> set_tree r"
  by (induction r rule: findMin.induct) auto

lemma remove_tree_gone: "bst t \<Longrightarrow> v \<notin> set_tree (remove_tree v t)"
proof (induction t)
  case Leaf
  then show ?case by simp
next
  case (Node l nv r)
  then show ?case
    using remove_tree_subset[of v l] remove_tree_subset[of v r] findMin_value_in[of r]
    by (auto simp: remove_tree_absent)
qed

lemma removeNode_absent_or_gone:
  "bst t \<Longrightarrow> v \<notin> set_tree (fst (removeNode t v)) \<and> (v \<notin> set_tree t \<longrightarrow> fst (removeNode t v) = t)"
  by (simp add: removeNode_root remove_tree_gone remove_tree_absent del: remove_tree.simps)

lemma predecessor_loop_result:
  "bst t \<Longrightarrow> fst (predecessor_loop root v t parent c st) =
     (if \<exists>x \<in> set_tree t. x < v then Some (Max {x \<in> set_tree t. x < v}) else c)"
proof (induction t arbitrary: parent c st)
  case Leaf
  then show ?case by simp
next
  case (Node l nv r)
  show ?case
  proof (cases "v \<le> nv")
    case True
    have "{x \<in> set_tree \<langle>l, nv, r\<rangle>. x < v} = {x \<in> set_tree l. x < v}"
      using Node.prems True by fastforce
    then show ?thesis using Node True by (auto simp: Let_def)
  next
    case False
    define R where "R = {x \<in> set_tree r. x < v}"
    define S where "S = {x \<in> set_tree \<langle>l, nv, r\<rangle>. x < v}"
    have fin: "finite S" "finite R" by (simp_all add: S_def R_def)
    have S: "S = set_tree l \<union> {nv} \<union> R"
      using Node.prems False by (auto simp: S_def R_def)
    have low: "\<And>y. y \<in> set_tree l \<union> {nv} \<Longrightarrow> y \<le> nv" using Node.prems by auto
    have high: "\<And>y. y \<in> R \<Longrightarrow> nv < y" using Node.prems by (auto simp: R_def)
    have ex: "\<exists>x \<in> set_tree \<langle>l, nv, r\<rangle>. x < v" using False by auto
    have loop: "fst (predecessor_loop root v \<langle>l, nv, r\<rangle> parent c st) =
        (if R \<noteq> {} then Some (Max R) else Some nv)"
      using Node.IH(2)[of _ "Some nv"] Node.prems False by (auto simp: Let_def R_def)
    have "Max S = (if R \<noteq> {} then Max R else nv)"
    proof (cases "R = {}")
      case True
      then show ?thesis using low fin by (auto simp: S intro!: Max_eqI)
    next
      case F: False
      then have m: "Max R \<in> R" using fin by simp
      have "y \<le> Max R" if "y \<in> S" for y
      proof (cases "y \<in> R")
        case True
        then show ?thesis using fin(2) by simp
      next
        case False
        with that have "y \<in> set_tree l \<union> {nv}" unfolding S by auto
        from low[OF this] high[OF m] show ?thesis by simp
      qed
      then have "Max S = Max R" using m fin by (intro Max_eqI) (auto simp: S)
      then show ?thesis using F by simp
    qed
    then show ?thesis using loop ex by (simp add: S_def)
  qed
qed

lemma findPredecessor_result:
  "bst t \<Longrightarrow> fst (findPredecessor t v) =
     (if \<exists>x \<in> set_tree t. x < v then Some (Max {x \<in> set_tree t. x < v}) else None)"
  using predecessor_loop_result[of t t v None None]
  by (simp add: findPredecessor_def Let_def case_prod_beta)

section \<open>The default tree\<close>

text \<open>
  The default tree has 21 nodes and height 7, as the comment in \<^verbatim>\<open>createDefaultTree\<close>
  says, and it is a search tree.
\<close>

lemma createDefaultTree_shape:
  "treeHeight createDefaultTree = 7 \<and> countNodes createDefaultTree = 21
   \<and> inorder createDefaultTree =
       [1, 2, 4, 8, 11, 15, 20, 22, 25, 30, 35, 40, 45, 50, 55, 60, 65, 70, 80, 85, 95]"
  by code_simp

lemma createDefaultTree_bst: "bst createDefaultTree"
  by code_simp

text \<open>
  Selecting the smallest value of the default tree: after the found step, each of the six
  ancestors of node 1 pushes a visit step. The counter no longer counts the skipped right
  subtrees, so from node 15 on it is not the rank of the node visited (15 is the sixth
  smallest value, 30 the tenth, 50 the fourteenth).
\<close>

lemma createDefaultTree_select_first:
  "map description (snd (selectKth createDefaultTree 1)) =
     [''Select 1-th smallest'', ''Visit 1 (count=1)'', ''1-th smallest is 1'', ''Visit 2 (count=2)'',
      ''Visit 4 (count=3)'', ''Visit 8 (count=4)'', ''Visit 15 (count=5)'', ''Visit 30 (count=6)'',
      ''Visit 50 (count=7)'', ''Result: 1'']"
  by code_simp

end
